theory Spec2Isabelle
  imports Main
begin

section \<open>Data model\<close>

text \<open>
  The filters work on the Draft.js document model.  A character carries an ordered set of
  style names and an optional entity key (\<open>None\<close> is JavaScript's \<open>null\<close>).  A block has
  a type, a text, a depth and a character list; its key is the key under which the block
  map holds it.
\<close>

type_synonym blockKey = string
type_synonym entityKey = string

record characterMetadata =
  style :: "string list"
  entity :: "entityKey option"

record contentBlock =
  blockType :: string
  blockText :: string
  depth :: nat
  characterList :: "characterMetadata list"

record draftEntity =
  entityType :: string
  entityData :: "(string \<times> string) list"

text \<open>An entry of the entity configuration array.\<close>

record entityTypeConfig =
  cfgType :: string
  attributes :: "string list"
  whitelist :: "(string \<times> string) list"

text \<open>
  Immutable.js \<open>OrderedMap\<close>: an association list in insertion order.  A well-formed
  ordered map has distinct keys.
\<close>

type_synonym ('k, 'v) orderedMap = "('k \<times> 'v) list"

record contentState =
  blockMap :: "(blockKey, contentBlock) orderedMap"
  entityMap :: "(entityKey, draftEntity) orderedMap"

record selectionState =
  anchorKey :: blockKey
  anchorOffset :: nat
  focusKey :: blockKey
  focusOffset :: nat
  isBackward :: bool
  hasFocus :: bool

record editorState =
  currentContent :: contentState
  selection :: selectionState

text \<open>
  Exceptions of the source are values: \<open>content.getEntity\<close> fails its invariant on an
  unknown key, and reading a property of \<open>undefined\<close> is a \<open>TypeError\<close>.
\<close>

datatype error = UnknownEntityKey entityKey | TypeError

definition bindE :: "error + 'a \<Rightarrow> ('a \<Rightarrow> error + 'b) \<Rightarrow> error + 'b" where
  "bindE m f = (case m of Inl e \<Rightarrow> Inl e | Inr x \<Rightarrow> f x)"

definition UNSTYLED :: string where "UNSTYLED = ''unstyled''"
definition ATOMIC :: string where "ATOMIC = ''atomic''"
definition IMAGE :: string where "IMAGE = ''IMAGE''"
definition HORIZONTAL_RULE :: string where "HORIZONTAL_RULE = ''HORIZONTAL_RULE''"

section \<open>Library primitives used by the filters\<close>

subsection \<open>Ordered maps\<close>

text \<open>\<open>OrderedMap.set\<close>: an existing key keeps its position, a new key goes last.\<close>

fun om_set :: "'k \<Rightarrow> 'v \<Rightarrow> ('k, 'v) orderedMap \<Rightarrow> ('k, 'v) orderedMap" where
  "om_set k v [] = [(k, v)]"
| "om_set k v (p # ps) = (if fst p = k then (k, v) # ps else p # om_set k v ps)"

text \<open>\<open>m.merge(other)\<close>: every entry of \<open>other\<close>, in order, is set in \<open>m\<close>.\<close>

definition om_merge :: "('k, 'v) orderedMap \<Rightarrow> ('k, 'v) orderedMap \<Rightarrow> ('k, 'v) orderedMap" where
  "om_merge m other = fold (\<lambda>p acc. om_set (fst p) (snd p) acc) other m"

definition om_filter :: "('v \<Rightarrow> bool) \<Rightarrow> ('k, 'v) orderedMap \<Rightarrow> ('k, 'v) orderedMap" where
  "om_filter P m = filter (\<lambda>p. P (snd p)) m"

definition om_map :: "('v \<Rightarrow> 'w) \<Rightarrow> ('k, 'v) orderedMap \<Rightarrow> ('k, 'w) orderedMap" where
  "om_map f m = map (\<lambda>p. (fst p, f (snd p))) m"

text \<open>A \<open>filter\<close> whose predicate may throw: the first exception ends the traversal.\<close>

fun om_filterE :: "('v \<Rightarrow> error + bool) \<Rightarrow> ('k, 'v) orderedMap \<Rightarrow> error + ('k, 'v) orderedMap" where
  "om_filterE P [] = Inr []"
| "om_filterE P (p # ps) =
     (case P (snd p) of
        Inl e \<Rightarrow> Inl e
      | Inr b \<Rightarrow> (case om_filterE P ps of
                   Inl e \<Rightarrow> Inl e
                 | Inr r \<Rightarrow> Inr (if b then p # r else r)))"

text \<open>A \<open>forEach\<close> that threads an accumulator and whose callback may throw.\<close>

fun foldE :: "('a \<Rightarrow> 'b \<Rightarrow> error + 'b) \<Rightarrow> 'a list \<Rightarrow> 'b \<Rightarrow> error + 'b" where
  "foldE f [] s = Inr s"
| "foldE f (x # xs) s = (case f x s of Inl e \<Rightarrow> Inl e | Inr s' \<Rightarrow> foldE f xs s')"

text \<open>A \<open>map\<close> whose callback may throw.\<close>

fun mapE :: "('a \<Rightarrow> error + 'b) \<Rightarrow> 'a list \<Rightarrow> error + 'b list" where
  "mapE f [] = Inr []"
| "mapE f (x # xs) =
     (case f x of
        Inl e \<Rightarrow> Inl e
      | Inr y \<Rightarrow> (case mapE f xs of Inl e \<Rightarrow> Inl e | Inr ys \<Rightarrow> Inr (y # ys)))"

subsection \<open>JavaScript values\<close>

text \<open>
  The source tests keys with \<open>if (entityKey)\<close>, \<open>entityKey && ...\<close> and
  \<open>if (nextAnchorKey)\<close>.  A key is a string, \<open>null\<close> or \<open>undefined\<close>; the test fails on
  \<open>null\<close>, on \<open>undefined\<close> and on the empty string.  \<open>truthy k\<close> is the key when the
  test succeeds.
\<close>

definition truthy :: "string option \<Rightarrow> string option" where
  "truthy k = (case k of None \<Rightarrow> None | Some s \<Rightarrow> if s = [] then None else Some s)"

subsection \<open>Draft.js accessors\<close>

definition getEntity :: "contentState \<Rightarrow> entityKey \<Rightarrow> error + draftEntity" where
  "getEntity content k =
     (case map_of (entityMap content) k of
        None \<Rightarrow> Inl (UnknownEntityKey k)
      | Some e \<Rightarrow> Inr e)"

definition getEntityAt :: "contentBlock \<Rightarrow> nat \<Rightarrow> entityKey option" where
  "getEntityAt block i =
     (if i < length (characterList block) then entity (characterList block ! i) else None)"

definition getInlineStyleAt :: "contentBlock \<Rightarrow> nat \<Rightarrow> string list" where
  "getInlineStyleAt block i =
     (if i < length (characterList block) then style (characterList block ! i) else [])"

definition removeStyle :: "characterMetadata \<Rightarrow> string \<Rightarrow> characterMetadata" where
  "removeStyle char t = char\<lparr>style := removeAll t (style char)\<rparr>"

definition applyEntity :: "characterMetadata \<Rightarrow> entityKey option \<Rightarrow> characterMetadata" where
  "applyEntity char k = char\<lparr>entity := k\<rparr>"

definition setBlockMap :: "editorState \<Rightarrow> (blockKey, contentBlock) orderedMap \<Rightarrow> editorState" where
  "setBlockMap es bm = es\<lparr>currentContent := (currentContent es)\<lparr>blockMap := bm\<rparr>\<rparr>"

section \<open>The filters of normalize.js\<close>

text \<open>The predicate of \<open>preserveAtomicBlocks\<close>: the entity at offset 0 has a listed type.\<close>

definition hasListedEntity :: "contentState \<Rightarrow> string list \<Rightarrow> contentBlock \<Rightarrow> error + bool" where
  "hasListedEntity content entityTypes block =
     (case truthy (getEntityAt block 0) of
        None \<Rightarrow> Inr False
      | Some entityKey \<Rightarrow>
          bindE (getEntity content entityKey)
            (\<lambda>e. Inr (entityType e \<in> set entityTypes)))"

definition preserveAtomicBlocks :: "editorState \<Rightarrow> string list \<Rightarrow> error + editorState" where
  "preserveAtomicBlocks es entityTypes =
     (let content = currentContent es;
          bm = blockMap content
      in bindE (om_filterE (hasListedEntity content entityTypes) bm)
           (\<lambda>kept.
              let perservedBlocks = om_map (\<lambda>block. block\<lparr>blockType := ATOMIC\<rparr>) kept
              in Inr (if length perservedBlocks \<noteq> 0
                      then setBlockMap es (om_merge bm perservedBlocks)
                      else es)))"

definition resetBlockDepth :: "editorState \<Rightarrow> nat \<Rightarrow> editorState" where
  "resetBlockDepth es maxListNesting =
     (let bm = blockMap (currentContent es);
          changedBlocks =
            om_map (\<lambda>block. block\<lparr>depth := maxListNesting\<rparr>)
              (om_filter (\<lambda>block. depth block > maxListNesting) bm)
      in if length changedBlocks \<noteq> 0 then setBlockMap es (om_merge bm changedBlocks) else es)"

definition resetBlockType :: "editorState \<Rightarrow> string list \<Rightarrow> editorState" where
  "resetBlockType es enabledTypes =
     (let bm = blockMap (currentContent es);
          changedBlocks =
            om_map (\<lambda>block. block\<lparr>blockType := UNSTYLED\<rparr>)
              (om_filter (\<lambda>block. blockType block \<notin> set enabledTypes) bm)
      in if length changedBlocks \<noteq> 0 then setBlockMap es (om_merge bm changedBlocks) else es)"

text \<open>
  The callback of \<open>filterInlineStyle\<close> for one character: every style that is not enabled
  is removed in turn; the flag tells whether a removal took place.
\<close>

definition filterCharStyle :: "string list \<Rightarrow> characterMetadata \<Rightarrow> characterMetadata \<times> bool" where
  "filterCharStyle enabledTypes char =
     (let removed = filter (\<lambda>t. t \<notin> set enabledTypes) (style char)
      in (fold (\<lambda>t newChar. removeStyle newChar t) removed char, removed \<noteq> []))"

definition filterBlockStyle :: "string list \<Rightarrow> contentBlock \<Rightarrow> contentBlock" where
  "filterBlockStyle enabledTypes block =
     (let rs = map (filterCharStyle enabledTypes) (characterList block);
          altered = list_ex snd rs
      in if altered then block\<lparr>characterList := map fst rs\<rparr> else block)"

definition filterInlineStyle :: "editorState \<Rightarrow> string list \<Rightarrow> editorState" where
  "filterInlineStyle es enabledTypes =
     (let bm = blockMap (currentContent es);
          blocks = om_map (filterBlockStyle enabledTypes) bm
      in setBlockMap es (om_merge bm blocks))"

text \<open>The shape normalisation of one atomic block: first character only, without styles.\<close>

definition normaliseBlock :: "contentBlock \<Rightarrow> contentBlock" where
  "normaliseBlock block =
     (let chars =
            map (\<lambda>char. fold (\<lambda>t newChar. removeStyle newChar t) (style char) char)
              (take 1 (characterList block))
      in block\<lparr>blockText := '' '', characterList := chars\<rparr>)"

definition needsNormalising :: "contentBlock \<Rightarrow> bool" where
  "needsNormalising block \<longleftrightarrow>
     blockType block = ATOMIC \<and>
     (blockText block \<noteq> '' '' \<or> length (getInlineStyleAt block 0) \<noteq> 0)"

definition shouldReset :: "contentState \<Rightarrow> string list \<Rightarrow> contentBlock \<Rightarrow> error + bool" where
  "shouldReset content enabledTypes block =
     (case truthy (getEntityAt block 0) of
        None \<Rightarrow> Inr False
      | Some entityKey \<Rightarrow>
          bindE (getEntity content entityKey)
            (\<lambda>e. Inr (entityType e \<notin> set enabledTypes)))"

definition resetAtomicBlocks :: "editorState \<Rightarrow> string list \<Rightarrow> error + editorState" where
  "resetAtomicBlocks es enabledTypes =
     (let content = currentContent es;
          bm = blockMap content;
          normalisedBlocks = om_map normaliseBlock (om_filter needsNormalising bm);
          blocks1 = (if length normalisedBlocks \<noteq> 0 then om_merge bm normalisedBlocks else bm)
      in bindE
           (om_filterE (shouldReset content enabledTypes)
              (om_filter (\<lambda>block. blockType block = ATOMIC) blocks1))
           (\<lambda>toReset.
              let resetBlocks = om_map (\<lambda>block. block\<lparr>blockType := UNSTYLED\<rparr>) toReset;
                  blocks2 = (if length resetBlocks \<noteq> 0 then om_merge bm resetBlocks else blocks1)
              in Inr (setBlockMap es (om_merge bm blocks2))))"

text \<open>
  The callback of \<open>filterEntityType\<close> for one character of a block of type \<open>bt\<close>; the flag
  tells whether the entity was removed.
\<close>

definition filterCharEntity ::
  "contentState \<Rightarrow> string list \<Rightarrow> string \<Rightarrow> characterMetadata \<Rightarrow> error + (characterMetadata \<times> bool)" where
  "filterCharEntity content enabledTypes bt char =
     (case truthy (entity char) of
        None \<Rightarrow> Inr (char, False)
      | Some entityKey \<Rightarrow>
          bindE (getEntity content entityKey)
            (\<lambda>e. let shouldFilter = (entityType e \<notin> set enabledTypes);
                      shouldFilterImage = (entityType e = IMAGE \<and> bt \<noteq> ATOMIC)
                  in if shouldFilter \<or> shouldFilterImage
                     then Inr (applyEntity char None, True)
                     else Inr (char, False)))"

definition filterBlockEntity :: "contentState \<Rightarrow> string list \<Rightarrow> contentBlock \<Rightarrow> error + contentBlock" where
  "filterBlockEntity content enabledTypes block =
     bindE (mapE (filterCharEntity content enabledTypes (blockType block)) (characterList block))
       (\<lambda>rs. let altered = list_ex snd rs
              in Inr (if altered then block\<lparr>characterList := map fst rs\<rparr> else block))"

definition filterEntityType :: "editorState \<Rightarrow> string list \<Rightarrow> error + editorState" where
  "filterEntityType es enabledTypes =
     (let content = currentContent es;
          bm = blockMap content
      in bindE (mapE (\<lambda>p. bindE (filterBlockEntity content enabledTypes (snd p))
                              (\<lambda>b. Inr (fst p, b))) bm)
           (\<lambda>blocks. Inr (setBlockMap es (om_merge bm blocks))))"

text \<open>
  The orchestrator.  With \<open>enableHorizontalRule\<close> the source pushes \<open>HORIZONTAL_RULE\<close> onto
  the caller's own array; the list used by the passes is the extended one.
\<close>

definition filterEditorState ::
  "editorState \<Rightarrow> nat \<Rightarrow> bool \<Rightarrow> string list \<Rightarrow> string list \<Rightarrow> string list \<Rightarrow> error + editorState" where
  "filterEditorState es maxListNesting enableHorizontalRule blockTypes inlineStyles entityTypes =
     (let enabledBlockTypes = blockTypes @ [UNSTYLED, ATOMIC];
          enabledEntityTypes =
            (if enableHorizontalRule then entityTypes @ [HORIZONTAL_RULE] else entityTypes)
      in bindE (preserveAtomicBlocks es [HORIZONTAL_RULE, IMAGE])
           (\<lambda>s1. let s2 = resetBlockDepth s1 maxListNesting;
                      s3 = resetBlockType s2 enabledBlockTypes;
                      s4 = filterInlineStyle s3 inlineStyles
                  in bindE (resetAtomicBlocks s4 enabledEntityTypes)
                       (\<lambda>s5. filterEntityType s5 enabledEntityTypes)))"

section \<open>The filters of filters/entities.js\<close>

definition shouldKeepEntityType :: "string list \<Rightarrow> string \<Rightarrow> bool" where
  "shouldKeepEntityType enabledTypes ety \<longleftrightarrow> ety \<in> set enabledTypes"

definition shouldRemoveImageEntity :: "string \<Rightarrow> string \<Rightarrow> bool" where
  "shouldRemoveImageEntity ety bt \<longleftrightarrow> ety = IMAGE \<and> bt \<noteq> ATOMIC"

text \<open>
  \<open>block.findEntityRanges(filterFn)\<close> walks the character list and calls \<open>filterFn\<close> on
  the last character of every maximal run of characters with the same entity.
\<close>

fun rangeEnds :: "characterMetadata list \<Rightarrow> characterMetadata list" where
  "rangeEnds [] = []"
| "rangeEnds [c] = [c]"
| "rangeEnds (c # d # cs) =
     (if entity c = entity d then rangeEnds (d # cs) else c # rangeEnds (d # cs))"

text \<open>The first loop of \<open>filterEntityAttributes\<close>: \<open>entities[entityKey] = entity\<close>.\<close>

definition collectChar ::
  "contentState \<Rightarrow> characterMetadata \<Rightarrow> (entityKey, draftEntity) orderedMap
     \<Rightarrow> error + (entityKey, draftEntity) orderedMap" where
  "collectChar content char entities =
     (case truthy (entity char) of
        None \<Rightarrow> Inr entities
      | Some entityKey \<Rightarrow>
          bindE (getEntity content entityKey) (\<lambda>e. Inr (om_set entityKey e entities)))"

definition collectEntities :: "contentState \<Rightarrow> error + (entityKey, draftEntity) orderedMap" where
  "collectEntities content =
     foldE (\<lambda>p entities. foldE (collectChar content) (rangeEnds (characterList (snd p))) entities)
       (blockMap content) []"

text \<open>
  \<open>Object.keys\<close> lists the properties that are array indices (canonical decimal numerals
  below \<open>2\<^sup>3\<^sup>2 - 1\<close>) in ascending numeric order, then the other properties in the order
  of their creation.  The entries are returned with their values, as the loop reads
  \<open>entities[key]\<close> at once.
\<close>

definition isDigit :: "char \<Rightarrow> bool" where
  "isDigit ch \<longleftrightarrow> ch \<in> set ''0123456789''"

definition decimalValue :: "string \<Rightarrow> int" where
  "decimalValue s = fold (\<lambda>ch n. 10 * n + (of_char ch - 48)) s 0"

definition isArrayIndex :: "string \<Rightarrow> bool" where
  "isArrayIndex s \<longleftrightarrow>
     s \<noteq> [] \<and> list_all isDigit s \<and> (s = ''0'' \<or> hd s \<noteq> CHR ''0'') \<and>
     decimalValue s < 4294967295"

definition objectKeys :: "(string, 'v) orderedMap \<Rightarrow> (string \<times> 'v) list" where
  "objectKeys obj =
     sort_key (\<lambda>p. decimalValue (fst p)) (filter (\<lambda>p. isArrayIndex (fst p)) obj) @
     filter (\<lambda>p. \<not> isArrayIndex (fst p)) obj"

text \<open>
  The data of an entity is a JavaScript object with string values; \<open>entityData\<close> lists
  its own properties in the order in which JavaScript enumerates them.

  \<open>data.hasOwnProperty(attr)\<close> looks the method up on the data object itself.  When the
  data owns a property of that name, its value (a string) is what the call applies, and
  the call throws a \<open>TypeError\<close>.  Attribute names are otherwise ordinary property
  names.
\<close>

definition hasOwnProperty :: "(string \<times> string) list \<Rightarrow> string \<Rightarrow> error + bool" where
  "hasOwnProperty dat attr =
     (case map_of dat ''hasOwnProperty'' of
        Some v \<Rightarrow> Inl TypeError
      | None \<Rightarrow> Inr (map_of dat attr \<noteq> None))"

text \<open>
  \<open>whitelist.reduce(...)\<close>: the attributes of the list that the data owns, copied in
  turn into a new object, which is then listed in enumeration order.
\<close>

definition copyAttribute ::
  "(string \<times> string) list \<Rightarrow> string \<Rightarrow> (string \<times> string) list \<Rightarrow> error + (string \<times> string) list" where
  "copyAttribute dat attr attrs =
     bindE (hasOwnProperty dat attr)
       (\<lambda>owns. Inr (if owns
                     then (case map_of dat attr of Some v \<Rightarrow> om_set attr v attrs | None \<Rightarrow> attrs)
                     else attrs))"

definition newData :: "string list \<Rightarrow> (string \<times> string) list \<Rightarrow> error + (string \<times> string) list" where
  "newData attrList dat =
     bindE (foldE (copyAttribute dat) attrList []) (\<lambda>attrs. Inr (objectKeys attrs))"

definition replaceEntityData ::
  "contentState \<Rightarrow> entityKey \<Rightarrow> (string \<times> string) list \<Rightarrow> error + contentState" where
  "replaceEntityData content k d =
     bindE (getEntity content k)
       (\<lambda>inst. Inr (content\<lparr>entityMap := om_set k (inst\<lparr>entityData := d\<rparr>) (entityMap content)\<rparr>))"

text \<open>
  The second loop, for one collected entity: \<open>find\<close> gives \<open>undefined\<close> when no entry has
  the entity's type, and reading \<open>.attributes\<close> of it throws.
\<close>

definition filterOneEntity ::
  "entityTypeConfig list \<Rightarrow> entityKey \<times> draftEntity \<Rightarrow> contentState \<Rightarrow> error + contentState" where
  "filterOneEntity enabledEntityTypes p content =
     (case find (\<lambda>t. cfgType t = entityType (snd p)) enabledEntityTypes of
        None \<Rightarrow> Inl TypeError
      | Some t \<Rightarrow>
          bindE (newData (attributes t) (entityData (snd p)))
            (\<lambda>d. replaceEntityData content (fst p) d))"

definition filterEntityAttributes :: "editorState \<Rightarrow> entityTypeConfig list \<Rightarrow> error + editorState" where
  "filterEntityAttributes es enabledEntityTypes =
     (let content = currentContent es
      in bindE (collectEntities content)
           (\<lambda>entities.
              bindE (foldE (filterOneEntity enabledEntityTypes) (objectKeys entities) content)
                (\<lambda>content'. Inr (es\<lparr>currentContent := content'\<rparr>))))"

section \<open>Selection\<close>

definition getBlockForKey :: "contentState \<Rightarrow> blockKey \<Rightarrow> contentBlock option" where
  "getBlockForKey content k = map_of (blockMap content) k"

text \<open>\<open>keySeq().skipUntil(v => v === key).skip(1).first()\<close>\<close>

definition getKeyAfter :: "contentState \<Rightarrow> blockKey \<Rightarrow> blockKey option" where
  "getKeyAfter content k =
     (case drop 1 (dropWhile (\<lambda>v. v \<noteq> k) (map fst (blockMap content))) of
        [] \<Rightarrow> None
      | k' # _ \<Rightarrow> Some k')"

definition isCollapsed :: "selectionState \<Rightarrow> bool" where
  "isCollapsed sel \<longleftrightarrow> anchorKey sel = focusKey sel \<and> anchorOffset sel = focusOffset sel"

definition acceptSelection :: "editorState \<Rightarrow> selectionState \<Rightarrow> editorState" where
  "acceptSelection es sel = es\<lparr>selection := sel\<rparr>"

definition applyContentWithSelection ::
  "editorState \<Rightarrow> contentState \<Rightarrow> contentState \<Rightarrow> error + editorState" where
  "applyContentWithSelection es content nextContent =
     (let nextState = es\<lparr>currentContent := nextContent\<rparr>;
          sel = selection es;
          anchorBlock = getBlockForKey nextContent (anchorKey sel);
          shouldKeepSelection = (\<not> isCollapsed sel \<or> anchorBlock \<noteq> None)
      in if shouldKeepSelection then Inr nextState
         else
           let nextKeys = map fst (blockMap nextContent)
           in case truthy (find (\<lambda>k. getKeyAfter content k \<noteq> getKeyAfter nextContent k)
                            (rev nextKeys)) of
                None \<Rightarrow> Inr nextState
              | Some nextAnchorKey \<Rightarrow>
                  (case getBlockForKey nextContent nextAnchorKey of
                     None \<Rightarrow> Inl TypeError
                   | Some nextSelectedBlock \<Rightarrow>
                       let blockEndOffset = length (blockText nextSelectedBlock);
                           nextSelection =
                             sel\<lparr>anchorKey := nextAnchorKey, focusKey := nextAnchorKey,
                                 anchorOffset := blockEndOffset, focusOffset := blockEndOffset\<rparr>
                       in Inr (acceptSelection nextState nextSelection)))"

section \<open>Notions used in the statements\<close>

text \<open>
  In the statements a character refers to the entity of key \<open>k\<close> when
  \<open>truthy (entity ch) = Some k\<close>: the key is there and passes the key test of the source
  (Draft.js generates no empty key).  Block maps are ordered maps, so their keys are
  distinct; the statements about them assume \<open>distinct (map fst bm)\<close>.
\<close>

text \<open>What \<open>resetAtomicBlocks\<close> does to one block in its first step.\<close>

definition normIf :: "contentBlock \<Rightarrow> contentBlock" where
  "normIf block = (if needsNormalising block then normaliseBlock block else block)"

text \<open>The blocks picked by the second step of \<open>resetAtomicBlocks\<close>.\<close>

definition resets :: "contentState \<Rightarrow> string list \<Rightarrow> contentBlock \<Rightarrow> bool" where
  "resets content enabledTypes block \<longleftrightarrow>
     blockType block = ATOMIC \<and> shouldReset content enabledTypes block = Inr True"

text \<open>Block \<open>i\<close> of a state is atomic and its first character carries the key \<open>k\<close>.\<close>

definition atomicWithEntity :: "editorState \<Rightarrow> nat \<Rightarrow> entityKey \<Rightarrow> bool" where
  "atomicWithEntity s i k \<longleftrightarrow>
     i < length (blockMap (currentContent s)) \<and>
     blockType (snd (blockMap (currentContent s) ! i)) = ATOMIC \<and>
     getEntityAt (snd (blockMap (currentContent s) ! i)) 0 = Some k"

text \<open>
  Referential integrity: every entity key that a character carries, and that the tests
  of the source take for a key, is a key of the entity map.  With it no \<open>getEntity\<close> of the passes throws.
\<close>

definition charResolves :: "(entityKey, draftEntity) orderedMap \<Rightarrow> characterMetadata \<Rightarrow> bool" where
  "charResolves em ch \<longleftrightarrow> (case truthy (entity ch) of None \<Rightarrow> True | Some k \<Rightarrow> map_of em k \<noteq> None)"

definition blockResolves :: "(entityKey, draftEntity) orderedMap \<Rightarrow> contentBlock \<Rightarrow> bool" where
  "blockResolves em b \<longleftrightarrow> list_all (charResolves em) (characterList b)"

definition entitiesResolve :: "contentState \<Rightarrow> bool" where
  "entitiesResolve content \<longleftrightarrow>
     list_all (\<lambda>p. blockResolves (entityMap content) (snd p)) (blockMap content)"

section \<open>Example documents\<close>

text \<open>Scenario D: a non-atomic block whose one character carries an image entity.\<close>

definition exD_state :: editorState where
  "exD_state =
     \<lparr>currentContent =
        \<lparr>blockMap = [(''a'', \<lparr>blockType = ''unstyled'', blockText = ''x'', depth = 0,
                       characterList = [\<lparr>style = [''BOLD''], entity = Some ''1''\<rparr>]\<rparr>)],
         entityMap = [(''1'', \<lparr>entityType = ''IMAGE'', entityData = []\<rparr>)]\<rparr>,
      selection = \<lparr>anchorKey = ''a'', anchorOffset = 0, focusKey = ''a'', focusOffset = 0,
                   isBackward = False, hasFocus = False\<rparr>\<rparr>"

text \<open>
  Two atomic blocks: the first needs its shape normalised and carries an enabled entity,
  the second has the right shape and carries an entity that is not enabled.
\<close>

definition exB_state :: editorState where
  "exB_state =
     \<lparr>currentContent =
        \<lparr>blockMap =
           [(''a'', \<lparr>blockType = ''atomic'', blockText = ''xx'', depth = 0,
                    characterList = [\<lparr>style = [], entity = Some ''1''\<rparr>,
                                     \<lparr>style = [], entity = Some ''1''\<rparr>]\<rparr>),
            (''b'', \<lparr>blockType = ''atomic'', blockText = '' '', depth = 0,
                    characterList = [\<lparr>style = [], entity = Some ''2''\<rparr>]\<rparr>)],
         entityMap = [(''1'', \<lparr>entityType = ''IMAGE'', entityData = []\<rparr>),
                      (''2'', \<lparr>entityType = ''EMBED'', entityData = []\<rparr>)]\<rparr>,
      selection = \<lparr>anchorKey = ''a'', anchorOffset = 0, focusKey = ''a'', focusOffset = 0,
                   isBackward = False, hasFocus = False\<rparr>\<rparr>"

text \<open>An atomic block of the right shape whose character carries no entity.\<close>

definition exA_state :: editorState where
  "exA_state =
     \<lparr>currentContent =
        \<lparr>blockMap = [(''a'', \<lparr>blockType = ''atomic'', blockText = '' '', depth = 0,
                       characterList = [\<lparr>style = [], entity = None\<rparr>]\<rparr>)],
         entityMap = []\<rparr>,
      selection = \<lparr>anchorKey = ''a'', anchorOffset = 0, focusKey = ''a'', focusOffset = 0,
                   isBackward = False, hasFocus = False\<rparr>\<rparr>"

text \<open>The output of the pipeline on \<open>exB_state\<close>, and the output of a second run on it.\<close>

definition exB_out :: editorState where
  "exB_out =
     \<lparr>currentContent =
        \<lparr>blockMap =
           [(''a'', \<lparr>blockType = ''atomic'', blockText = ''xx'', depth = 0,
                    characterList = [\<lparr>style = [], entity = Some ''1''\<rparr>,
                                     \<lparr>style = [], entity = Some ''1''\<rparr>]\<rparr>),
            (''b'', \<lparr>blockType = ''unstyled'', blockText = '' '', depth = 0,
                    characterList = [\<lparr>style = [], entity = None\<rparr>]\<rparr>)],
         entityMap = [(''1'', \<lparr>entityType = ''IMAGE'', entityData = []\<rparr>),
                      (''2'', \<lparr>entityType = ''EMBED'', entityData = []\<rparr>)]\<rparr>,
      selection = \<lparr>anchorKey = ''a'', anchorOffset = 0, focusKey = ''a'', focusOffset = 0,
                   isBackward = False, hasFocus = False\<rparr>\<rparr>"

definition exB_out2 :: editorState where
  "exB_out2 =
     \<lparr>currentContent =
        \<lparr>blockMap =
           [(''a'', \<lparr>blockType = ''atomic'', blockText = '' '', depth = 0,
                    characterList = [\<lparr>style = [], entity = Some ''1''\<rparr>]\<rparr>),
            (''b'', \<lparr>blockType = ''unstyled'', blockText = '' '', depth = 0,
                    characterList = [\<lparr>style = [], entity = None\<rparr>]\<rparr>)],
         entityMap = [(''1'', \<lparr>entityType = ''IMAGE'', entityData = []\<rparr>),
                      (''2'', \<lparr>entityType = ''EMBED'', entityData = []\<rparr>)]\<rparr>,
      selection = \<lparr>anchorKey = ''a'', anchorOffset = 0, focusKey = ''a'', focusOffset = 0,
                   isBackward = False, hasFocus = False\<rparr>\<rparr>"

text \<open>An atomic block with no text, and what \<open>resetAtomicBlocks\<close> makes of it.\<close>

definition exN_state :: editorState where
  "exN_state =
     \<lparr>currentContent =
        \<lparr>blockMap = [(''a'', \<lparr>blockType = ''atomic'', blockText = '''', depth = 0,
                       characterList = []\<rparr>)],
         entityMap = []\<rparr>,
      selection = \<lparr>anchorKey = ''a'', anchorOffset = 0, focusKey = ''a'', focusOffset = 0,
                   isBackward = False, hasFocus = False\<rparr>\<rparr>"

definition exN_out :: editorState where
  "exN_out =
     \<lparr>currentContent =
        \<lparr>blockMap = [(''a'', \<lparr>blockType = ''atomic'', blockText = '' '', depth = 0,
                       characterList = []\<rparr>)],
         entityMap = []\<rparr>,
      selection = \<lparr>anchorKey = ''a'', anchorOffset = 0, focusKey = ''a'', focusOffset = 0,
                   isBackward = False, hasFocus = False\<rparr>\<rparr>"

text \<open>Scenario E: the block under the caret is gone from the new content.\<close>

definition exE_old :: contentState where
  "exE_old =
     \<lparr>blockMap = [(''A'', \<lparr>blockType = ''unstyled'', blockText = ''one'', depth = 0, characterList = []\<rparr>),
                  (''B'', \<lparr>blockType = ''unstyled'', blockText = ''two'', depth = 0, characterList = []\<rparr>),
                  (''C'', \<lparr>blockType = ''unstyled'', blockText = ''three'', depth = 0, characterList = []\<rparr>)],
      entityMap = []\<rparr>"

definition exE_new :: contentState where
  "exE_new =
     \<lparr>blockMap = [(''A'', \<lparr>blockType = ''unstyled'', blockText = ''one'', depth = 0, characterList = []\<rparr>),
                  (''C'', \<lparr>blockType = ''unstyled'', blockText = ''three'', depth = 0, characterList = []\<rparr>)],
      entityMap = []\<rparr>"

definition exE_state :: editorState where
  "exE_state =
     \<lparr>currentContent = exE_old,
      selection = \<lparr>anchorKey = ''B'', anchorOffset = 0, focusKey = ''B'', focusOffset = 0,
                   isBackward = False, hasFocus = True\<rparr>\<rparr>"

text \<open>A link whose data owns a property named \<open>hasOwnProperty\<close>.\<close>

definition exH_state :: editorState where
  "exH_state =
     \<lparr>currentContent =
        \<lparr>blockMap = [(''a'', \<lparr>blockType = ''unstyled'', blockText = ''x'', depth = 0,
                       characterList = [\<lparr>style = [], entity = Some ''1''\<rparr>]\<rparr>)],
         entityMap = [(''1'', \<lparr>entityType = ''LINK'',
                              entityData = [(''url'', ''http://x''), (''hasOwnProperty'', ''x'')]\<rparr>)]\<rparr>,
      selection = \<lparr>anchorKey = ''a'', anchorOffset = 0, focusKey = ''a'', focusOffset = 0,
                   isBackward = False, hasFocus = False\<rparr>\<rparr>"

text \<open>A heading whose first character carries an image, and a plain paragraph.\<close>

definition exP_state :: editorState where
  "exP_state =
     \<lparr>currentContent =
        \<lparr>blockMap =
           [(''a'', \<lparr>blockType = ''header-two'', blockText = ''x'', depth = 0,
                    characterList = [\<lparr>style = [], entity = Some ''1''\<rparr>]\<rparr>),
            (''b'', \<lparr>blockType = ''header-two'', blockText = ''y'', depth = 0,
                    characterList = [\<lparr>style = [], entity = None\<rparr>]\<rparr>)],
         entityMap = [(''1'', \<lparr>entityType = ''IMAGE'', entityData = []\<rparr>)]\<rparr>,
      selection = \<lparr>anchorKey = ''a'', anchorOffset = 0, focusKey = ''a'', focusOffset = 0,
                   isBackward = False, hasFocus = False\<rparr>\<rparr>"


definition exF_config :: "entityTypeConfig list" where
  "exF_config = [\<lparr>cfgType = ''LINK'', attributes = [''url''], whitelist = []\<rparr>]"

section \<open>Facts about key tests\<close>

lemma truthy_None [simp]: "truthy None = None"
  by (simp add: truthy_def)

lemma truthy_Some [simp]: "truthy (Some s) = (if s = [] then None else Some s)"
  by (simp add: truthy_def)

lemma truthy_eq_Some: "truthy k = Some s \<longleftrightarrow> k = Some s \<and> s \<noteq> []"
  by (cases k) auto

section \<open>Facts about ordered maps\<close>

lemma om_set_keys: "map fst (om_set k v m) = (if k \<in> fst ` set m then map fst m else map fst m @ [k])"
  by (induction m) auto

lemma om_set_present:
  "distinct (map fst m) \<Longrightarrow> k \<in> fst ` set m \<Longrightarrow>
   om_set k v m = map (\<lambda>p. if fst p = k then (k, v) else p) m"
proof (induction m)
  case Nil
  then show ?case by simp
next
  case (Cons p ps)
  show ?case
  proof (cases "fst p = k")
    case True
    with Cons.prems have "k \<notin> fst ` set ps" by auto
    then have "\<forall>q \<in> set ps. fst q \<noteq> k" by (metis image_eqI)
    then have "map (\<lambda>q. if fst q = k then (k, v) else q) ps = ps"
      by (induction ps) auto
    with True show ?thesis by simp
  next
    case False
    with Cons show ?thesis by auto
  qed
qed

lemma om_merge_Nil: "om_merge m [] = m"
  by (simp add: om_merge_def)

lemma om_merge_Cons: "om_merge m (p # ps) = om_merge (om_set (fst p) (snd p) m) ps"
  by (simp add: om_merge_def)

lemma om_merge_char:
  "distinct (map fst m) \<Longrightarrow> distinct (map fst other) \<Longrightarrow> fst ` set other \<subseteq> fst ` set m \<Longrightarrow>
   om_merge m other = map (\<lambda>p. case map_of other (fst p) of None \<Rightarrow> p | Some v \<Rightarrow> (fst p, v)) m"
proof (induction other arbitrary: m)
  case Nil
  then show ?case by (simp add: om_merge_Nil)
next
  case (Cons q qs)
  obtain k v where q: "q = (k, v)" by (cases q)
  from Cons.prems q have kin: "k \<in> fst ` set m" by auto
  let ?m' = "om_set k v m"
  have keys: "map fst ?m' = map fst m" using kin by (simp add: om_set_keys)
  have d': "distinct (map fst ?m')" using Cons.prems(1) keys by simp
  have sub: "fst ` set qs \<subseteq> fst ` set ?m'"
  proof -
    have "fst ` set ?m' = set (map fst ?m')" by simp
    also have "\<dots> = fst ` set m" using keys by simp
    finally show ?thesis using Cons.prems(3) by auto
  qed
  have notin: "map_of qs k = None"
    using Cons.prems(2) q by (simp add: map_of_eq_None_iff)
  have "om_merge m (q # qs) = om_merge ?m' qs" by (simp add: om_merge_Cons q)
  also have "\<dots> = map (\<lambda>p. case map_of qs (fst p) of None \<Rightarrow> p | Some v \<Rightarrow> (fst p, v)) ?m'"
    using Cons.IH [OF d' _ sub] Cons.prems(2) by simp
  also have "?m' = map (\<lambda>p. if fst p = k then (k, v) else p) m"
    by (rule om_set_present [OF Cons.prems(1) kin])
  also have "map (\<lambda>p. case map_of qs (fst p) of None \<Rightarrow> p | Some v \<Rightarrow> (fst p, v))
               (map (\<lambda>p. if fst p = k then (k, v) else p) m)
           = map (\<lambda>p. case map_of (q # qs) (fst p) of None \<Rightarrow> p | Some v \<Rightarrow> (fst p, v)) m"
    using notin by (auto simp: q)
  finally show ?case .
qed

lemma map_of_filter_map_None:
  "k \<notin> fst ` set m \<Longrightarrow> map_of (om_map f (om_filter P (om_map g m))) k = None"
  by (induction m) (auto simp: om_map_def om_filter_def)

lemma map_of_filter_map:
  "distinct (map fst m) \<Longrightarrow> (k, v) \<in> set m \<Longrightarrow>
   map_of (om_map f (om_filter P (om_map g m))) k = (if P (g v) then Some (f (g v)) else None)"
proof (induction m)
  case Nil
  then show ?case by simp
next
  case (Cons p ps)
  show ?case
  proof (cases "p = (k, v)")
    case True
    with Cons.prems have "k \<notin> fst ` set ps" by simp
    from map_of_filter_map_None [OF this, of f P g] True show ?thesis
      by (simp add: om_map_def om_filter_def)
  next
    case False
    with Cons.prems have in_ps: "(k, v) \<in> set ps" and d: "distinct (map fst ps)" by auto
    from Cons.prems(1) have "fst p \<notin> fst ` set ps" by simp
    with in_ps have "fst p \<noteq> k" by (metis image_eqI fst_conv)
    with Cons.IH [OF d in_ps] show ?thesis
      by (simp add: om_map_def om_filter_def)
  qed
qed

lemma om_merge_filter_map2:
  assumes "distinct (map fst m)"
  shows "om_merge m (om_map f (om_filter P (om_map g m))) =
         om_map (\<lambda>v. if P (g v) then f (g v) else v) m"
proof -
  let ?other = "om_map f (om_filter P (om_map g m))"
  have keys: "map fst ?other = map fst (filter (\<lambda>p. P (g (snd p))) m)"
    by (simp add: om_map_def om_filter_def comp_def filter_map)
  have d: "distinct (map fst ?other)"
    unfolding keys using assms by (rule distinct_map_filter)
  have sub: "fst ` set ?other \<subseteq> fst ` set m"
  proof -
    have "fst ` set ?other = set (map fst ?other)" by simp
    also have "\<dots> \<subseteq> fst ` set m" unfolding keys by auto
    finally show ?thesis .
  qed
  have "om_merge m ?other =
        map (\<lambda>p. case map_of ?other (fst p) of None \<Rightarrow> p | Some v \<Rightarrow> (fst p, v)) m"
    by (rule om_merge_char [OF assms d sub])
  also have "\<dots> = map (\<lambda>p. (fst p, if P (g (snd p)) then f (g (snd p)) else snd p)) m"
  proof (rule map_cong [OF refl])
    fix p assume "p \<in> set m"
    then have "(fst p, snd p) \<in> set m" by simp
    from map_of_filter_map [OF assms this, of f P g]
    show "(case map_of ?other (fst p) of None \<Rightarrow> p | Some v \<Rightarrow> (fst p, v)) =
          (fst p, if P (g (snd p)) then f (g (snd p)) else snd p)"
      by simp
  qed
  also have "\<dots> = om_map (\<lambda>v. if P (g v) then f (g v) else v) m"
    by (simp add: om_map_def)
  finally show ?thesis .
qed

lemma om_map_id: "om_map (\<lambda>v. v) m = m"
  by (simp add: om_map_def)

lemma om_merge_filter_map:
  "distinct (map fst m) \<Longrightarrow>
   om_merge m (om_map f (om_filter P m)) = om_map (\<lambda>v. if P v then f v else v) m"
  using om_merge_filter_map2 [of m f P "\<lambda>v. v"] by (simp add: om_map_id)

lemma om_merge_om_map:
  "distinct (map fst m) \<Longrightarrow> om_merge m (om_map f m) = om_map f m"
  using om_merge_filter_map2 [of m "\<lambda>v. v" "\<lambda>_. True" f] by (simp add: om_filter_def om_map_id)

lemma om_merge_same_keys:
  assumes d: "distinct (map fst m)" and k: "map fst m' = map fst m"
  shows "om_merge m m' = m'"
proof -
  have d': "distinct (map fst m')" using d k by simp
  have sub: "fst ` set m' \<subseteq> fst ` set m"
  proof -
    have "fst ` set m' = set (map fst m')" by simp
    then show ?thesis using k by simp
  qed
  have len: "length m = length m'" using k by (metis length_map)
  have "map (\<lambda>p. case map_of m' (fst p) of None \<Rightarrow> p | Some v \<Rightarrow> (fst p, v)) m = m'"
  proof (rule nth_equalityI)
    show "length (map (\<lambda>p. case map_of m' (fst p) of None \<Rightarrow> p | Some v \<Rightarrow> (fst p, v)) m) = length m'"
      using len by simp
  next
    fix i assume "i < length (map (\<lambda>p. case map_of m' (fst p) of None \<Rightarrow> p | Some v \<Rightarrow> (fst p, v)) m)"
    then have i: "i < length m" by simp
    then have i': "i < length m'" using len by simp
    have fk: "fst (m ! i) = fst (m' ! i)"
      using k i i' by (metis nth_map)
    have "(fst (m' ! i), snd (m' ! i)) \<in> set m'" using i' by simp
    then have "map_of m' (fst (m' ! i)) = Some (snd (m' ! i))"
      using d' by simp
    then show "map (\<lambda>p. case map_of m' (fst p) of None \<Rightarrow> p | Some v \<Rightarrow> (fst p, v)) m ! i = m' ! i"
      using i fk by simp
  qed
  with om_merge_char [OF d d' sub] show ?thesis by simp
qed

section \<open>Facts about the exception combinators\<close>

lemma bindE_Inl [simp]: "bindE (Inl e) f = Inl e"
  by (simp add: bindE_def)

lemma bindE_Inr [simp]: "bindE (Inr x) f = f x"
  by (simp add: bindE_def)

lemma bindE_eq_Inr: "bindE m f = Inr y \<longleftrightarrow> (\<exists>x. m = Inr x \<and> f x = Inr y)"
  by (cases m) simp_all

lemma om_filterE_Inr:
  "om_filterE P m = Inr r \<Longrightarrow> r = om_filter (\<lambda>v. P v = Inr True) m"
  by (induction m arbitrary: r) (auto simp: om_filter_def split: sum.splits if_splits)

lemma om_filterE_total:
  "(\<forall>p \<in> set m. \<exists>b. P (snd p) = Inr b) \<Longrightarrow> \<exists>r. om_filterE P m = Inr r"
  by (induction m) (auto split: sum.splits)

lemma om_filterE_defined:
  "om_filterE P m = Inr r \<Longrightarrow> p \<in> set m \<Longrightarrow> \<exists>b. P (snd p) = Inr b"
  by (induction m arbitrary: r) (auto split: sum.splits)

lemma mapE_Inr:
  "mapE f xs = Inr ys \<Longrightarrow> list_all2 (\<lambda>x y. f x = Inr y) xs ys"
  by (induction xs arbitrary: ys) (auto split: sum.splits)

lemma mapE_total:
  "(\<forall>x \<in> set xs. \<exists>y. f x = Inr y) \<Longrightarrow> \<exists>ys. mapE f xs = Inr ys"
  by (induction xs) (auto split: sum.splits)

section \<open>What each pass does to the block map\<close>

lemma setBlockMap_same: "setBlockMap es (blockMap (currentContent es)) = es"
  by (simp add: setBlockMap_def)

lemma merge_if_nonempty:
  "(if length c \<noteq> 0 then setBlockMap es (om_merge (blockMap (currentContent es)) c) else es) =
   setBlockMap es (om_merge (blockMap (currentContent es)) c)"
  by (cases c) (simp_all add: om_merge_Nil setBlockMap_same)

lemma blockMap_setBlockMap [simp]: "blockMap (currentContent (setBlockMap es bm)) = bm"
  by (simp add: setBlockMap_def)

lemma entityMap_setBlockMap [simp]:
  "entityMap (currentContent (setBlockMap es bm)) = entityMap (currentContent es)"
  by (simp add: setBlockMap_def)

lemma selection_setBlockMap [simp]: "selection (setBlockMap es bm) = selection es"
  by (simp add: setBlockMap_def)

lemma keys_om_map [simp]: "map fst (om_map f m) = map fst m"
  by (simp add: om_map_def comp_def)

lemma length_om_map [simp]: "length (om_map f m) = length m"
  by (simp add: om_map_def)

lemma nth_om_map: "i < length m \<Longrightarrow> om_map f m ! i = (fst (m ! i), f (snd (m ! i)))"
  by (simp add: om_map_def)

lemma preserveAtomicBlocks_Inr:
  assumes d: "distinct (map fst (blockMap (currentContent es)))"
    and r: "preserveAtomicBlocks es ts = Inr es'"
  shows "es' = setBlockMap es
           (om_map (\<lambda>b. if hasListedEntity (currentContent es) ts b = Inr True
                         then b\<lparr>blockType := ATOMIC\<rparr> else b)
              (blockMap (currentContent es)))"
proof -
  let ?bm = "blockMap (currentContent es)"
  let ?P = "hasListedEntity (currentContent es) ts"
  from r obtain kept where k: "om_filterE ?P ?bm = Inr kept"
    and e: "es' = setBlockMap es (om_merge ?bm (om_map (\<lambda>b. b\<lparr>blockType := ATOMIC\<rparr>) kept))"
    unfolding preserveAtomicBlocks_def Let_def bindE_eq_Inr merge_if_nonempty by auto
  from om_filterE_Inr [OF k] have "kept = om_filter (\<lambda>v. ?P v = Inr True) ?bm" .
  with e om_merge_filter_map [OF d] show ?thesis by simp
qed

lemma resetBlockDepth_eq:
  assumes d: "distinct (map fst (blockMap (currentContent es)))"
  shows "resetBlockDepth es n = setBlockMap es
           (om_map (\<lambda>b. if depth b > n then b\<lparr>depth := n\<rparr> else b) (blockMap (currentContent es)))"
  unfolding resetBlockDepth_def Let_def merge_if_nonempty
  by (simp add: om_merge_filter_map [OF d])

lemma resetBlockType_eq:
  assumes d: "distinct (map fst (blockMap (currentContent es)))"
  shows "resetBlockType es ts = setBlockMap es
           (om_map (\<lambda>b. if blockType b \<notin> set ts then b\<lparr>blockType := UNSTYLED\<rparr> else b)
              (blockMap (currentContent es)))"
  unfolding resetBlockType_def Let_def merge_if_nonempty
  by (simp add: om_merge_filter_map [OF d])

lemma filterInlineStyle_eq:
  assumes d: "distinct (map fst (blockMap (currentContent es)))"
  shows "filterInlineStyle es ts = setBlockMap es
           (om_map (filterBlockStyle ts) (blockMap (currentContent es)))"
  unfolding filterInlineStyle_def Let_def
  by (simp add: om_merge_om_map [OF d])

lemma resetAtomicBlocks_Inr:
  assumes d: "distinct (map fst (blockMap (currentContent es)))"
    and r: "resetAtomicBlocks es ts = Inr es'"
  shows "es' = setBlockMap es
           (if list_ex (\<lambda>p. resets (currentContent es) ts (normIf (snd p))) (blockMap (currentContent es))
            then om_map (\<lambda>b. if resets (currentContent es) ts (normIf b)
                              then (normIf b)\<lparr>blockType := UNSTYLED\<rparr> else b)
                   (blockMap (currentContent es))
            else om_map normIf (blockMap (currentContent es)))"
proof -
  let ?c = "currentContent es"
  let ?bm = "blockMap ?c"
  let ?norm = "om_map normaliseBlock (om_filter needsNormalising ?bm)"
  let ?b1 = "if length ?norm \<noteq> 0 then om_merge ?bm ?norm else ?bm"
  let ?un = "\<lambda>b. b\<lparr>blockType := UNSTYLED\<rparr>"
  have b1: "?b1 = om_map normIf ?bm"
  proof -
    have "?b1 = om_merge ?bm ?norm" by (cases ?norm) (simp_all add: om_merge_Nil)
    also have "\<dots> = om_map normIf ?bm"
      using om_merge_filter_map [OF d, of normaliseBlock needsNormalising]
      by (simp add: normIf_def [abs_def])
    finally show ?thesis .
  qed
  from r obtain toReset where
    t: "om_filterE (shouldReset ?c ts) (om_filter (\<lambda>b. blockType b = ATOMIC) ?b1) = Inr toReset"
    and e: "es' = setBlockMap es
              (om_merge ?bm (if length (om_map ?un toReset) \<noteq> 0
                             then om_merge ?bm (om_map ?un toReset) else ?b1))"
    unfolding resetAtomicBlocks_def Let_def bindE_eq_Inr by auto
  have tr: "toReset = om_filter (resets ?c ts) (om_map normIf ?bm)"
    using om_filterE_Inr [OF t] unfolding b1
    by (simp add: om_filter_def resets_def [abs_def] conj_commute)
  have m2: "om_merge ?bm (om_map ?un toReset) =
            om_map (\<lambda>b. if resets ?c ts (normIf b) then ?un (normIf b) else b) ?bm"
    unfolding tr by (rule om_merge_filter_map2 [OF d])
  have ne: "length (om_map ?un toReset) \<noteq> 0 \<longleftrightarrow> list_ex (\<lambda>p. resets ?c ts (normIf (snd p))) ?bm"
    unfolding tr
    by (auto simp: om_filter_def om_map_def list_ex_iff filter_empty_conv)
  show ?thesis
  proof (cases "list_ex (\<lambda>p. resets ?c ts (normIf (snd p))) ?bm")
    case True
    with ne e m2 show ?thesis by (simp add: om_merge_same_keys [OF d])
  next
    case False
    with ne e b1 show ?thesis by (simp add: om_merge_same_keys [OF d])
  qed
qed

lemma filterCharEntity_Inr:
  assumes "filterCharEntity c ts bt ch = Inr r"
  shows "style (fst r) = style ch \<and> (\<not> snd r \<longrightarrow> fst r = ch) \<and>
         entity (fst r) =
           (case truthy (entity ch) of
              None \<Rightarrow> entity ch
            | Some k \<Rightarrow> (case map_of (entityMap c) k of
                           None \<Rightarrow> None
                         | Some e \<Rightarrow> if entityType e \<notin> set ts \<or> shouldRemoveImageEntity (entityType e) bt
                                     then None else Some k))"
  using assms
  by (auto simp: filterCharEntity_def getEntity_def applyEntity_def shouldRemoveImageEntity_def
      truthy_eq_Some Let_def split: option.splits if_splits)

lemma filterCharEntity_total:
  "(case truthy (entity ch) of None \<Rightarrow> True | Some k \<Rightarrow> map_of (entityMap c) k \<noteq> None) \<Longrightarrow>
   \<exists>r. filterCharEntity c ts bt ch = Inr r"
  by (auto simp: filterCharEntity_def getEntity_def Let_def split: option.splits)

lemma unaltered_chars:
  "list_all2 (\<lambda>x y. \<not> snd y \<longrightarrow> fst y = x) cs rs \<Longrightarrow> \<not> list_ex snd rs \<Longrightarrow> map fst rs = cs"
  by (induction cs rs rule: list_all2_induct) auto

lemma filterBlockEntity_Inr:
  assumes "filterBlockEntity c ts b = Inr b'"
  shows "\<exists>rs. list_all2 (\<lambda>x y. filterCharEntity c ts (blockType b) x = Inr y) (characterList b) rs \<and>
              b' = b\<lparr>characterList := map fst rs\<rparr>"
proof -
  from assms obtain rs where
    m: "mapE (filterCharEntity c ts (blockType b)) (characterList b) = Inr rs"
    and e: "b' = (if list_ex snd rs then b\<lparr>characterList := map fst rs\<rparr> else b)"
    unfolding filterBlockEntity_def Let_def bindE_eq_Inr by auto
  from mapE_Inr [OF m]
  have l: "list_all2 (\<lambda>x y. filterCharEntity c ts (blockType b) x = Inr y) (characterList b) rs" .
  then have "list_all2 (\<lambda>x y. \<not> snd y \<longrightarrow> fst y = x) (characterList b) rs"
    by (rule list_all2_mono) (use filterCharEntity_Inr in blast)
  from unaltered_chars [OF this] e have "b' = b\<lparr>characterList := map fst rs\<rparr>"
    by (cases "list_ex snd rs") simp_all
  with l show ?thesis by blast
qed

lemma filterEntityType_Inr:
  assumes d: "distinct (map fst (blockMap (currentContent es)))"
    and r: "filterEntityType es ts = Inr es'"
  shows "\<exists>bm'. es' = setBlockMap es bm' \<and>
           list_all2 (\<lambda>p q. fst q = fst p \<and> filterBlockEntity (currentContent es) ts (snd p) = Inr (snd q))
             (blockMap (currentContent es)) bm'"
proof -
  let ?c = "currentContent es"
  let ?bm = "blockMap ?c"
  from r obtain blocks where
    m: "mapE (\<lambda>p. bindE (filterBlockEntity ?c ts (snd p)) (\<lambda>b. Inr (fst p, b))) ?bm = Inr blocks"
    and e: "es' = setBlockMap es (om_merge ?bm blocks)"
    unfolding filterEntityType_def Let_def bindE_eq_Inr by auto
  from mapE_Inr [OF m]
  have "list_all2 (\<lambda>p q. bindE (filterBlockEntity ?c ts (snd p)) (\<lambda>b. Inr (fst p, b)) = Inr q) ?bm blocks" .
  then have l: "list_all2 (\<lambda>p q. fst q = fst p \<and> filterBlockEntity ?c ts (snd p) = Inr (snd q)) ?bm blocks"
    by (rule list_all2_mono) (auto simp: bindE_eq_Inr)
  then have "map fst blocks = map fst ?bm"
    by (induction rule: list_all2_induct) auto
  from om_merge_same_keys [OF d this] e l show ?thesis by auto
qed

lemma filterBlockEntity_total:
  assumes "blockResolves (entityMap c) b"
  shows "\<exists>b'. filterBlockEntity c ts b = Inr b'"
proof -
  have "\<forall>ch \<in> set (characterList b). \<exists>r. filterCharEntity c ts (blockType b) ch = Inr r"
    using assms filterCharEntity_total [where c=c and ts=ts and bt="blockType b"]
    by (auto simp: blockResolves_def charResolves_def list_all_iff)
  from mapE_total [OF this] show ?thesis
    by (auto simp: filterBlockEntity_def Let_def)
qed

lemma filterEntityType_total:
  assumes "entitiesResolve (currentContent es)"
  shows "\<exists>es'. filterEntityType es ts = Inr es'"
proof -
  let ?c = "currentContent es"
  have "\<forall>p \<in> set (blockMap ?c). \<exists>q. bindE (filterBlockEntity ?c ts (snd p)) (\<lambda>b. Inr (fst p, b)) = Inr q"
  proof
    fix p assume "p \<in> set (blockMap ?c)"
    with assms have "blockResolves (entityMap ?c) (snd p)"
      by (simp add: entitiesResolve_def list_all_iff)
    from filterBlockEntity_total [OF this, of ts]
    show "\<exists>q. bindE (filterBlockEntity ?c ts (snd p)) (\<lambda>b. Inr (fst p, b)) = Inr q"
      by auto
  qed
  from mapE_total [OF this] show ?thesis
    by (auto simp: filterEntityType_def Let_def)
qed

lemma filterEntityType_blocks:
  assumes d: "distinct (map fst (blockMap (currentContent es)))"
    and r: "filterEntityType es ts = Inr es'"
    and i: "i < length (blockMap (currentContent es))"
  shows "length (blockMap (currentContent es')) = length (blockMap (currentContent es)) \<and>
         fst (blockMap (currentContent es') ! i) = fst (blockMap (currentContent es) ! i) \<and>
         (\<exists>rs. list_all2 (\<lambda>x y. filterCharEntity (currentContent es) ts
                                   (blockType (snd (blockMap (currentContent es) ! i))) x = Inr y)
                  (characterList (snd (blockMap (currentContent es) ! i))) rs \<and>
               snd (blockMap (currentContent es') ! i) =
                 (snd (blockMap (currentContent es) ! i))\<lparr>characterList := map fst rs\<rparr>)"
proof -
  from filterEntityType_Inr [OF d r] obtain bm' where
    e: "es' = setBlockMap es bm'"
    and l: "list_all2 (\<lambda>p q. fst q = fst p \<and>
              filterBlockEntity (currentContent es) ts (snd p) = Inr (snd q))
              (blockMap (currentContent es)) bm'"
    by blast
  from l have len: "length bm' = length (blockMap (currentContent es))"
    by (simp add: list_all2_lengthD)
  from list_all2_nthD [OF l i]
  have k: "fst (bm' ! i) = fst (blockMap (currentContent es) ! i)"
    and f: "filterBlockEntity (currentContent es) ts (snd (blockMap (currentContent es) ! i)) =
            Inr (snd (bm' ! i))"
    by simp_all
  from filterBlockEntity_Inr [OF f] e len k show ?thesis by simp
qed

text \<open>
  Claim C4.  In \<open>filterEntityType\<close>, a character whose entity has the image type and
  whose block is not atomic loses its entity reference, whatever the list of enabled
  types (so also when it holds the image type); the character's styles and the block's
  key, type, text and length are as before.  The pass returns when every entity
  reference of the document resolves.
\<close>

theorem filterEntityType_image_placement:
  assumes d: "distinct (map fst (blockMap (currentContent es)))"
    and i: "i < length (blockMap (currentContent es))"
    and j: "j < length (characterList (snd (blockMap (currentContent es) ! i)))"
    and k: "truthy (entity (characterList (snd (blockMap (currentContent es) ! i)) ! j)) = Some k"
    and e: "map_of (entityMap (currentContent es)) k = Some e"
    and img: "shouldRemoveImageEntity (entityType e) (blockType (snd (blockMap (currentContent es) ! i)))"
  shows "(entitiesResolve (currentContent es) \<longrightarrow> (\<exists>es'. filterEntityType es ts = Inr es')) \<and>
         (\<forall>es'. filterEntityType es ts = Inr es' \<longrightarrow>
            length (blockMap (currentContent es')) = length (blockMap (currentContent es)) \<and>
            fst (blockMap (currentContent es') ! i) = fst (blockMap (currentContent es) ! i) \<and>
            blockType (snd (blockMap (currentContent es') ! i)) =
              blockType (snd (blockMap (currentContent es) ! i)) \<and>
            blockText (snd (blockMap (currentContent es') ! i)) =
              blockText (snd (blockMap (currentContent es) ! i)) \<and>
            length (characterList (snd (blockMap (currentContent es') ! i))) =
              length (characterList (snd (blockMap (currentContent es) ! i))) \<and>
            entity (characterList (snd (blockMap (currentContent es') ! i)) ! j) = None \<and>
            style (characterList (snd (blockMap (currentContent es') ! i)) ! j) =
              style (characterList (snd (blockMap (currentContent es) ! i)) ! j))"
proof (intro conjI allI impI)
  assume "entitiesResolve (currentContent es)"
  then show "\<exists>es'. filterEntityType es ts = Inr es'" by (rule filterEntityType_total)
next
  fix es' assume r: "filterEntityType es ts = Inr es'"
  let ?b = "snd (blockMap (currentContent es) ! i)"
  let ?b' = "snd (blockMap (currentContent es') ! i)"
  from filterEntityType_blocks [OF d r i] obtain rs where
    len: "length (blockMap (currentContent es')) = length (blockMap (currentContent es))"
    and key: "fst (blockMap (currentContent es') ! i) = fst (blockMap (currentContent es) ! i)"
    and l: "list_all2 (\<lambda>x y. filterCharEntity (currentContent es) ts (blockType ?b) x = Inr y)
              (characterList ?b) rs"
    and b': "?b' = ?b\<lparr>characterList := map fst rs\<rparr>"
    by blast
  from l have lr: "length rs = length (characterList ?b)" by (simp add: list_all2_lengthD)
  from list_all2_nthD [OF l j]
  have "filterCharEntity (currentContent es) ts (blockType ?b) (characterList ?b ! j) = Inr (rs ! j)" .
  from filterCharEntity_Inr [OF this] k e img
  have ch: "entity (fst (rs ! j)) = None" "style (fst (rs ! j)) = style (characterList ?b ! j)"
    by simp_all
  show "length (blockMap (currentContent es')) = length (blockMap (currentContent es))" by (rule len)
  show "fst (blockMap (currentContent es') ! i) = fst (blockMap (currentContent es) ! i)" by (rule key)
  show "blockType ?b' = blockType ?b" by (simp add: b')
  show "blockText ?b' = blockText ?b" by (simp add: b')
  show "length (characterList ?b') = length (characterList ?b)" by (simp add: b' lr)
  show "entity (characterList ?b' ! j) = None" using ch j lr by (simp add: b')
  show "style (characterList ?b' ! j) = style (characterList ?b ! j)" using ch j lr by (simp add: b')
qed

theorem filterEntityType_image_placement_witness:
  "distinct (map fst (blockMap (currentContent exD_state))) \<and>
   entitiesResolve (currentContent exD_state) \<and>
   shouldRemoveImageEntity ''IMAGE'' ''unstyled'' \<and>
   ''IMAGE'' \<in> set [''IMAGE''] \<and>
   (\<exists>es'. filterEntityType exD_state [''IMAGE''] = Inr es' \<and>
          blockType (snd (blockMap (currentContent es') ! 0)) = ''unstyled'' \<and>
          blockText (snd (blockMap (currentContent es') ! 0)) = ''x'' \<and>
          entity (characterList (snd (blockMap (currentContent es') ! 0)) ! 0) = None \<and>
          style (characterList (snd (blockMap (currentContent es') ! 0)) ! 0) = [''BOLD''])"
proof -
  let ?e = "\<lparr>entityType = ''IMAGE'', entityData = []\<rparr>"
  have d: "distinct (map fst (blockMap (currentContent exD_state)))"
    by (simp add: exD_state_def)
  have r: "entitiesResolve (currentContent exD_state)"
    by (simp add: exD_state_def entitiesResolve_def blockResolves_def charResolves_def)
  have i: "0 < length (blockMap (currentContent exD_state))"
    by (simp add: exD_state_def)
  have j: "0 < length (characterList (snd (blockMap (currentContent exD_state) ! 0)))"
    by (simp add: exD_state_def)
  have k: "truthy (entity (characterList (snd (blockMap (currentContent exD_state) ! 0)) ! 0)) = Some ''1''"
    by (simp add: exD_state_def)
  have e: "map_of (entityMap (currentContent exD_state)) ''1'' = Some ?e"
    by (simp add: exD_state_def)
  have img: "shouldRemoveImageEntity ''IMAGE'' ''unstyled''"
    by (simp add: shouldRemoveImageEntity_def IMAGE_def ATOMIC_def)
  have img': "shouldRemoveImageEntity (entityType ?e)
                (blockType (snd (blockMap (currentContent exD_state) ! 0)))"
    using img by (simp add: exD_state_def)
  note t = filterEntityType_image_placement [OF d i j k e img', of "[''IMAGE'']"]
  from t r obtain es' where s: "filterEntityType exD_state [''IMAGE''] = Inr es'"
    by blast
  with t have
    "blockType (snd (blockMap (currentContent es') ! 0)) =
       blockType (snd (blockMap (currentContent exD_state) ! 0))"
    "blockText (snd (blockMap (currentContent es') ! 0)) =
       blockText (snd (blockMap (currentContent exD_state) ! 0))"
    "entity (characterList (snd (blockMap (currentContent es') ! 0)) ! 0) = None"
    "style (characterList (snd (blockMap (currentContent es') ! 0)) ! 0) =
       style (characterList (snd (blockMap (currentContent exD_state) ! 0)) ! 0)"
    by blast+
  then have
    "blockType (snd (blockMap (currentContent es') ! 0)) = ''unstyled'' \<and>
     blockText (snd (blockMap (currentContent es') ! 0)) = ''x'' \<and>
     entity (characterList (snd (blockMap (currentContent es') ! 0)) ! 0) = None \<and>
     style (characterList (snd (blockMap (currentContent es') ! 0)) ! 0) = [''BOLD'']"
    by (simp add: exD_state_def)
  with s have "\<exists>es'. filterEntityType exD_state [''IMAGE''] = Inr es' \<and>
          blockType (snd (blockMap (currentContent es') ! 0)) = ''unstyled'' \<and>
          blockText (snd (blockMap (currentContent es') ! 0)) = ''x'' \<and>
          entity (characterList (snd (blockMap (currentContent es') ! 0)) ! 0) = None \<and>
          style (characterList (snd (blockMap (currentContent es') ! 0)) ! 0) = [''BOLD'']"
    by (intro exI [where x = es'] conjI) simp_all
  with d r img show ?thesis by simp
qed

lemma filterEditorState_Inr:
  assumes "filterEditorState es n hr bts sts ets = Inr es'"
  shows "\<exists>s1 s5. preserveAtomicBlocks es [HORIZONTAL_RULE, IMAGE] = Inr s1 \<and>
           resetAtomicBlocks
             (filterInlineStyle (resetBlockType (resetBlockDepth s1 n) (bts @ [UNSTYLED, ATOMIC])) sts)
             (if hr then ets @ [HORIZONTAL_RULE] else ets) = Inr s5 \<and>
           filterEntityType s5 (if hr then ets @ [HORIZONTAL_RULE] else ets) = Inr es'"
  using assms unfolding filterEditorState_def Let_def bindE_eq_Inr by blast

text \<open>Every pass keeps the keys of the block map, in order.\<close>

lemma preserveAtomicBlocks_keys:
  assumes "distinct (map fst (blockMap (currentContent es)))"
    and "preserveAtomicBlocks es ts = Inr es'"
  shows "map fst (blockMap (currentContent es')) = map fst (blockMap (currentContent es))"
  using preserveAtomicBlocks_Inr [OF assms] by simp

lemma resetBlockDepth_keys:
  assumes "distinct (map fst (blockMap (currentContent es)))"
  shows "map fst (blockMap (currentContent (resetBlockDepth es n))) = map fst (blockMap (currentContent es))"
  using resetBlockDepth_eq [OF assms] by simp

lemma resetBlockType_keys:
  assumes "distinct (map fst (blockMap (currentContent es)))"
  shows "map fst (blockMap (currentContent (resetBlockType es ts))) = map fst (blockMap (currentContent es))"
  using resetBlockType_eq [OF assms] by simp

lemma filterInlineStyle_keys:
  assumes "distinct (map fst (blockMap (currentContent es)))"
  shows "map fst (blockMap (currentContent (filterInlineStyle es ts))) = map fst (blockMap (currentContent es))"
  using filterInlineStyle_eq [OF assms] by simp

lemma resetAtomicBlocks_keys:
  assumes "distinct (map fst (blockMap (currentContent es)))"
    and "resetAtomicBlocks es ts = Inr es'"
  shows "map fst (blockMap (currentContent es')) = map fst (blockMap (currentContent es))"
  using resetAtomicBlocks_Inr [OF assms] by simp

lemma filterEntityType_keys:
  assumes "distinct (map fst (blockMap (currentContent es)))"
    and "filterEntityType es ts = Inr es'"
  shows "map fst (blockMap (currentContent es')) = map fst (blockMap (currentContent es))"
proof -
  from filterEntityType_Inr [OF assms] obtain bm' where
    e: "es' = setBlockMap es bm'"
    and l: "list_all2 (\<lambda>p q. fst q = fst p \<and>
              filterBlockEntity (currentContent es) ts (snd p) = Inr (snd q))
              (blockMap (currentContent es)) bm'"
    by blast
  from l have "map fst bm' = map fst (blockMap (currentContent es))"
    by (induction rule: list_all2_induct) auto
  with e show ?thesis by simp
qed

text \<open>The block types after each pass.\<close>

lemma set_om_map: "set (om_map f m) = (\<lambda>p. (fst p, f (snd p))) ` set m"
  by (simp add: om_map_def)

lemma resetBlockType_types:
  assumes d: "distinct (map fst (blockMap (currentContent es)))"
    and p: "p \<in> set (blockMap (currentContent (resetBlockType es ts)))"
  shows "blockType (snd p) \<in> set ts \<union> {UNSTYLED}"
  using p unfolding resetBlockType_eq [OF d] by (auto simp: set_om_map)

lemma blockType_filterBlockStyle [simp]: "blockType (filterBlockStyle ts b) = blockType b"
  by (simp add: filterBlockStyle_def Let_def)

lemma filterInlineStyle_types:
  assumes d: "distinct (map fst (blockMap (currentContent es)))"
    and p: "p \<in> set (blockMap (currentContent (filterInlineStyle es ts)))"
  shows "\<exists>q \<in> set (blockMap (currentContent es)). blockType (snd p) = blockType (snd q)"
  using p unfolding filterInlineStyle_eq [OF d] by (force simp: set_om_map)

lemma blockType_normIf [simp]: "blockType (normIf b) = blockType b"
  by (simp add: normIf_def normaliseBlock_def Let_def)

lemma resetAtomicBlocks_types:
  assumes d: "distinct (map fst (blockMap (currentContent es)))"
    and r: "resetAtomicBlocks es ts = Inr es'"
    and p: "p \<in> set (blockMap (currentContent es'))"
  shows "blockType (snd p) = UNSTYLED \<or>
         (\<exists>q \<in> set (blockMap (currentContent es)). blockType (snd p) = blockType (snd q))"
  using p unfolding resetAtomicBlocks_Inr [OF d r]
  by (force simp: set_om_map split: if_splits)

lemma filterEntityType_types:
  assumes d: "distinct (map fst (blockMap (currentContent es)))"
    and r: "filterEntityType es ts = Inr es'"
    and p: "p \<in> set (blockMap (currentContent es'))"
  shows "\<exists>q \<in> set (blockMap (currentContent es)). blockType (snd p) = blockType (snd q)"
proof -
  from p obtain i where i': "i < length (blockMap (currentContent es'))"
    and pi: "p = blockMap (currentContent es') ! i"
    by (auto simp: in_set_conv_nth)
  from filterEntityType_keys [OF d r] have "length (blockMap (currentContent es')) =
      length (blockMap (currentContent es))" by (metis length_map)
  with i' have i: "i < length (blockMap (currentContent es))" by simp
  from filterEntityType_blocks [OF d r i] pi
  have "blockType (snd p) = blockType (snd (blockMap (currentContent es) ! i))" by auto
  with i show ?thesis by (metis nth_mem)
qed

text \<open>Resolving entity references: kept by every pass, and enough for the passes to return.\<close>

lemma blockResolves_blockType [simp]: "blockResolves em (b\<lparr>blockType := t\<rparr>) = blockResolves em b"
  by (simp add: blockResolves_def)

lemma blockResolves_depth [simp]: "blockResolves em (b\<lparr>depth := n\<rparr>) = blockResolves em b"
  by (simp add: blockResolves_def)

lemma entity_fold_removeStyle [simp]:
  "entity (fold (\<lambda>t newChar. removeStyle newChar t) ts ch) = entity ch"
  by (induction ts arbitrary: ch) (simp_all add: removeStyle_def)

lemma style_fold_removeStyle:
  "style (fold (\<lambda>t newChar. removeStyle newChar t) ts ch) = filter (\<lambda>t. t \<notin> set ts) (style ch)"
proof (induction ts arbitrary: ch)
  case Nil
  then show ?case by simp
next
  case (Cons t ts)
  have "removeAll t xs = filter (\<lambda>s. s \<noteq> t) xs" for xs :: "string list"
    by (induction xs) auto
  with Cons show ?case
    by (auto simp: removeStyle_def intro: filter_cong)
qed

lemma blockResolves_filterBlockStyle:
  "blockResolves em b \<Longrightarrow> blockResolves em (filterBlockStyle ts b)"
  by (auto simp: blockResolves_def filterBlockStyle_def filterCharStyle_def charResolves_def
      list_all_iff Let_def)

lemma blockResolves_normIf: "blockResolves em b \<Longrightarrow> blockResolves em (normIf b)"
  by (auto simp: blockResolves_def normIf_def normaliseBlock_def charResolves_def
      list_all_iff Let_def dest: in_set_takeD)

lemma entitiesResolve_om_map:
  assumes "entitiesResolve (currentContent es)"
    and "\<And>b. blockResolves (entityMap (currentContent es)) b \<Longrightarrow>
              blockResolves (entityMap (currentContent es)) (f b)"
  shows "entitiesResolve (currentContent (setBlockMap es (om_map f (blockMap (currentContent es)))))"
  using assms by (auto simp: entitiesResolve_def list_all_iff set_om_map)

lemma getEntityAt_resolves:
  "blockResolves em b \<Longrightarrow> truthy (getEntityAt b 0) = Some k \<Longrightarrow> \<exists>e. map_of em k = Some e"
  by (cases "characterList b")
     (auto simp: blockResolves_def charResolves_def getEntityAt_def split: option.splits)

lemma hasListedEntity_total:
  "blockResolves (entityMap c) b \<Longrightarrow> \<exists>r. hasListedEntity c ts b = Inr r"
  by (cases "truthy (getEntityAt b 0)")
     (auto simp: hasListedEntity_def getEntity_def dest: getEntityAt_resolves)

lemma shouldReset_total:
  "blockResolves (entityMap c) b \<Longrightarrow> \<exists>r. shouldReset c ts b = Inr r"
  by (cases "truthy (getEntityAt b 0)")
     (auto simp: shouldReset_def getEntity_def dest: getEntityAt_resolves)

lemma preserveAtomicBlocks_total:
  assumes "entitiesResolve (currentContent es)"
  shows "\<exists>es'. preserveAtomicBlocks es ts = Inr es'"
proof -
  have "\<forall>p \<in> set (blockMap (currentContent es)). \<exists>r. hasListedEntity (currentContent es) ts (snd p) = Inr r"
    using assms hasListedEntity_total by (auto simp: entitiesResolve_def list_all_iff)
  from om_filterE_total [OF this] show ?thesis
    by (auto simp: preserveAtomicBlocks_def Let_def)
qed

lemma preserveAtomicBlocks_resolve:
  assumes d: "distinct (map fst (blockMap (currentContent es)))"
    and r: "preserveAtomicBlocks es ts = Inr es'"
    and e: "entitiesResolve (currentContent es)"
  shows "entitiesResolve (currentContent es')"
  unfolding preserveAtomicBlocks_Inr [OF d r]
  by (rule entitiesResolve_om_map [OF e]) simp

lemma resetBlockDepth_resolve:
  assumes d: "distinct (map fst (blockMap (currentContent es)))"
    and e: "entitiesResolve (currentContent es)"
  shows "entitiesResolve (currentContent (resetBlockDepth es n))"
  unfolding resetBlockDepth_eq [OF d]
  by (rule entitiesResolve_om_map [OF e]) simp

lemma resetBlockType_resolve:
  assumes d: "distinct (map fst (blockMap (currentContent es)))"
    and e: "entitiesResolve (currentContent es)"
  shows "entitiesResolve (currentContent (resetBlockType es ts))"
  unfolding resetBlockType_eq [OF d]
  by (rule entitiesResolve_om_map [OF e]) simp

lemma filterInlineStyle_resolve:
  assumes d: "distinct (map fst (blockMap (currentContent es)))"
    and e: "entitiesResolve (currentContent es)"
  shows "entitiesResolve (currentContent (filterInlineStyle es ts))"
  unfolding filterInlineStyle_eq [OF d]
  by (rule entitiesResolve_om_map [OF e]) (rule blockResolves_filterBlockStyle)

lemma resetAtomicBlocks_blocks1:
  assumes d: "distinct (map fst m)"
  shows "(if length (om_map normaliseBlock (om_filter needsNormalising m)) \<noteq> 0
          then om_merge m (om_map normaliseBlock (om_filter needsNormalising m)) else m) =
         om_map normIf m"
proof -
  let ?norm = "om_map normaliseBlock (om_filter needsNormalising m)"
  have "(if length ?norm \<noteq> 0 then om_merge m ?norm else m) = om_merge m ?norm"
    by (cases ?norm) (simp_all add: om_merge_Nil)
  also have "\<dots> = om_map normIf m"
    using om_merge_filter_map [OF d, of normaliseBlock needsNormalising]
    by (simp add: normIf_def [abs_def])
  finally show ?thesis .
qed

lemma resetAtomicBlocks_total:
  assumes d: "distinct (map fst (blockMap (currentContent es)))"
    and e: "entitiesResolve (currentContent es)"
  shows "\<exists>es'. resetAtomicBlocks es ts = Inr es'"
proof -
  let ?c = "currentContent es"
  have "\<forall>p \<in> set (om_filter (\<lambda>b. blockType b = ATOMIC) (om_map normIf (blockMap ?c))).
          \<exists>r. shouldReset ?c ts (snd p) = Inr r"
    using e shouldReset_total blockResolves_normIf
    by (auto simp: entitiesResolve_def list_all_iff om_filter_def set_om_map)
  from om_filterE_total [OF this] show ?thesis
    unfolding resetAtomicBlocks_def Let_def resetAtomicBlocks_blocks1 [OF d]
    by auto
qed

lemma resetAtomicBlocks_resolve:
  assumes d: "distinct (map fst (blockMap (currentContent es)))"
    and r: "resetAtomicBlocks es ts = Inr es'"
    and e: "entitiesResolve (currentContent es)"
  shows "entitiesResolve (currentContent es')"
proof (cases "list_ex (\<lambda>p. resets (currentContent es) ts (normIf (snd p))) (blockMap (currentContent es))")
  case True
  then show ?thesis
    unfolding resetAtomicBlocks_Inr [OF d r]
    using entitiesResolve_om_map [OF e, of "\<lambda>b. if resets (currentContent es) ts (normIf b)
                              then (normIf b)\<lparr>blockType := UNSTYLED\<rparr> else b"]
    by (simp add: blockResolves_normIf)
next
  case False
  then show ?thesis
    unfolding resetAtomicBlocks_Inr [OF d r]
    using entitiesResolve_om_map [OF e, of normIf]
    by (simp add: blockResolves_normIf)
qed

lemma filterEditorState_total:
  assumes d: "distinct (map fst (blockMap (currentContent es)))"
    and e: "entitiesResolve (currentContent es)"
  shows "\<exists>es'. filterEditorState es n hr bts sts ets = Inr es'"
proof -
  let ?ets = "if hr then ets @ [HORIZONTAL_RULE] else ets"
  from preserveAtomicBlocks_total [OF e] obtain s1 where
    s1: "preserveAtomicBlocks es [HORIZONTAL_RULE, IMAGE] = Inr s1" by blast
  have d1: "distinct (map fst (blockMap (currentContent s1)))"
    using preserveAtomicBlocks_keys [OF d s1] d by simp
  have e1: "entitiesResolve (currentContent s1)"
    by (rule preserveAtomicBlocks_resolve [OF d s1 e])
  let ?s2 = "resetBlockDepth s1 n"
  have d2: "distinct (map fst (blockMap (currentContent ?s2)))"
    using resetBlockDepth_keys [OF d1] d1 by simp
  have e2: "entitiesResolve (currentContent ?s2)"
    by (rule resetBlockDepth_resolve [OF d1 e1])
  let ?s3 = "resetBlockType ?s2 (bts @ [UNSTYLED, ATOMIC])"
  have d3: "distinct (map fst (blockMap (currentContent ?s3)))"
    using resetBlockType_keys [OF d2] d2 by simp
  have e3: "entitiesResolve (currentContent ?s3)"
    by (rule resetBlockType_resolve [OF d2 e2])
  let ?s4 = "filterInlineStyle ?s3 sts"
  have d4: "distinct (map fst (blockMap (currentContent ?s4)))"
    using filterInlineStyle_keys [OF d3] d3 by simp
  have e4: "entitiesResolve (currentContent ?s4)"
    by (rule filterInlineStyle_resolve [OF d3 e3])
  from resetAtomicBlocks_total [OF d4 e4] obtain s5 where
    s5: "resetAtomicBlocks ?s4 ?ets = Inr s5" by blast
  have e5: "entitiesResolve (currentContent s5)"
    by (rule resetAtomicBlocks_resolve [OF d4 s5 e4])
  from filterEntityType_total [OF e5] obtain es' where
    "filterEntityType s5 ?ets = Inr es'" by blast
  with s1 s5 show ?thesis
    by (simp add: filterEditorState_def Let_def)
qed

lemma filterEditorState_keys:
  assumes d: "distinct (map fst (blockMap (currentContent es)))"
    and r: "filterEditorState es n hr bts sts ets = Inr es'"
  shows "map fst (blockMap (currentContent es')) = map fst (blockMap (currentContent es))"
proof -
  let ?ets = "if hr then ets @ [HORIZONTAL_RULE] else ets"
  from filterEditorState_Inr [OF r] obtain s1 s5 where
    s1: "preserveAtomicBlocks es [HORIZONTAL_RULE, IMAGE] = Inr s1"
    and s5: "resetAtomicBlocks
               (filterInlineStyle (resetBlockType (resetBlockDepth s1 n) (bts @ [UNSTYLED, ATOMIC])) sts)
               ?ets = Inr s5"
    and s6: "filterEntityType s5 ?ets = Inr es'"
    by blast
  have k1: "map fst (blockMap (currentContent s1)) = map fst (blockMap (currentContent es))"
    by (rule preserveAtomicBlocks_keys [OF d s1])
  then have d1: "distinct (map fst (blockMap (currentContent s1)))" using d by simp
  let ?s2 = "resetBlockDepth s1 n"
  have k2: "map fst (blockMap (currentContent ?s2)) = map fst (blockMap (currentContent es))"
    using resetBlockDepth_keys [OF d1] k1 by simp
  then have d2: "distinct (map fst (blockMap (currentContent ?s2)))" using d by simp
  let ?s3 = "resetBlockType ?s2 (bts @ [UNSTYLED, ATOMIC])"
  have k3: "map fst (blockMap (currentContent ?s3)) = map fst (blockMap (currentContent es))"
    using resetBlockType_keys [OF d2] k2 by simp
  then have d3: "distinct (map fst (blockMap (currentContent ?s3)))" using d by simp
  let ?s4 = "filterInlineStyle ?s3 sts"
  have k4: "map fst (blockMap (currentContent ?s4)) = map fst (blockMap (currentContent es))"
    using filterInlineStyle_keys [OF d3] k3 by simp
  then have d4: "distinct (map fst (blockMap (currentContent ?s4)))" using d by simp
  have k5: "map fst (blockMap (currentContent s5)) = map fst (blockMap (currentContent es))"
    using resetAtomicBlocks_keys [OF d4 s5] k4 by simp
  then have d5: "distinct (map fst (blockMap (currentContent s5)))" using d by simp
  show ?thesis using filterEntityType_keys [OF d5 s6] k5 by simp
qed

lemma filterEditorState_stages:
  assumes d: "distinct (map fst (blockMap (currentContent es)))"
    and r: "filterEditorState es n hr bts sts ets = Inr es'"
  obtains s1 s5 where
    "preserveAtomicBlocks es [HORIZONTAL_RULE, IMAGE] = Inr s1"
    "resetAtomicBlocks
       (filterInlineStyle (resetBlockType (resetBlockDepth s1 n) (bts @ [UNSTYLED, ATOMIC])) sts)
       (if hr then ets @ [HORIZONTAL_RULE] else ets) = Inr s5"
    "filterEntityType s5 (if hr then ets @ [HORIZONTAL_RULE] else ets) = Inr es'"
    "distinct (map fst (blockMap (currentContent s1)))"
    "distinct (map fst (blockMap (currentContent (resetBlockDepth s1 n))))"
    "distinct (map fst (blockMap (currentContent
       (resetBlockType (resetBlockDepth s1 n) (bts @ [UNSTYLED, ATOMIC])))))"
    "distinct (map fst (blockMap (currentContent
       (filterInlineStyle (resetBlockType (resetBlockDepth s1 n) (bts @ [UNSTYLED, ATOMIC])) sts))))"
    "distinct (map fst (blockMap (currentContent s5)))"
proof -
  let ?ets = "if hr then ets @ [HORIZONTAL_RULE] else ets"
  from filterEditorState_Inr [OF r] obtain s1 s5 where
    s1: "preserveAtomicBlocks es [HORIZONTAL_RULE, IMAGE] = Inr s1"
    and s5: "resetAtomicBlocks
               (filterInlineStyle (resetBlockType (resetBlockDepth s1 n) (bts @ [UNSTYLED, ATOMIC])) sts)
               ?ets = Inr s5"
    and s6: "filterEntityType s5 ?ets = Inr es'"
    by blast
  have d1: "distinct (map fst (blockMap (currentContent s1)))"
    using preserveAtomicBlocks_keys [OF d s1] d by simp
  let ?s2 = "resetBlockDepth s1 n"
  have d2: "distinct (map fst (blockMap (currentContent ?s2)))"
    using resetBlockDepth_keys [OF d1] d1 by simp
  let ?s3 = "resetBlockType ?s2 (bts @ [UNSTYLED, ATOMIC])"
  have d3: "distinct (map fst (blockMap (currentContent ?s3)))"
    using resetBlockType_keys [OF d2] d2 by simp
  let ?s4 = "filterInlineStyle ?s3 sts"
  have d4: "distinct (map fst (blockMap (currentContent ?s4)))"
    using filterInlineStyle_keys [OF d3] d3 by simp
  have d5: "distinct (map fst (blockMap (currentContent s5)))"
    using resetAtomicBlocks_keys [OF d4 s5] d4 by simp
  from that [OF s1 s5 s6 d1 d2 d3 d4 d5] show ?thesis .
qed

lemma filterEditorState_types:
  assumes d: "distinct (map fst (blockMap (currentContent es)))"
    and r: "filterEditorState es n hr bts sts ets = Inr es'"
    and p: "p \<in> set (blockMap (currentContent es'))"
  shows "blockType (snd p) \<in> set bts \<union> {UNSTYLED, ATOMIC}"
proof -
  let ?S = "set bts \<union> {UNSTYLED, ATOMIC}"
  let ?ets = "if hr then ets @ [HORIZONTAL_RULE] else ets"
  from d r obtain s1 s5 where
    s5: "resetAtomicBlocks
           (filterInlineStyle (resetBlockType (resetBlockDepth s1 n) (bts @ [UNSTYLED, ATOMIC])) sts)
           ?ets = Inr s5"
    and s6: "filterEntityType s5 ?ets = Inr es'"
    and d2: "distinct (map fst (blockMap (currentContent (resetBlockDepth s1 n))))"
    and d3: "distinct (map fst (blockMap (currentContent
               (resetBlockType (resetBlockDepth s1 n) (bts @ [UNSTYLED, ATOMIC])))))"
    and d4: "distinct (map fst (blockMap (currentContent
               (filterInlineStyle (resetBlockType (resetBlockDepth s1 n) (bts @ [UNSTYLED, ATOMIC])) sts))))"
    and d5: "distinct (map fst (blockMap (currentContent s5)))"
    by (rule filterEditorState_stages)
  let ?s3 = "resetBlockType (resetBlockDepth s1 n) (bts @ [UNSTYLED, ATOMIC])"
  let ?s4 = "filterInlineStyle ?s3 sts"
  have t3: "blockType (snd q) \<in> ?S" if "q \<in> set (blockMap (currentContent ?s3))" for q
    using resetBlockType_types [OF d2 that] by auto
  have t4: "blockType (snd q) \<in> ?S" if "q \<in> set (blockMap (currentContent ?s4))" for q
  proof -
    from filterInlineStyle_types [OF d3 that] obtain q' where
      "q' \<in> set (blockMap (currentContent ?s3))" "blockType (snd q) = blockType (snd q')"
      by blast
    with t3 [of q'] show ?thesis by simp
  qed
  have t5: "blockType (snd q) \<in> ?S" if "q \<in> set (blockMap (currentContent s5))" for q
  proof -
    from resetAtomicBlocks_types [OF d4 s5 that]
    consider "blockType (snd q) = UNSTYLED"
      | q' where "q' \<in> set (blockMap (currentContent ?s4))" "blockType (snd q) = blockType (snd q')"
      by blast
    then show ?thesis
    proof cases
      case 1
      then show ?thesis by simp
    next
      case 2
      with t4 [of q'] show ?thesis by simp
    qed
  qed
  from filterEntityType_types [OF d5 s6 p] obtain q' where
    "q' \<in> set (blockMap (currentContent s5))" "blockType (snd p) = blockType (snd q')"
    by blast
  with t5 [of q'] show ?thesis by simp
qed

text \<open>
  Claim C10.  \<open>filterEditorState\<close> neither adds, removes nor reorders blocks: the keys of
  the output block map are the keys of the input block map, in the same order; and so
  for each of the six passes.
\<close>

theorem filterEditorState_keeps_block_keys:
  assumes d: "distinct (map fst (blockMap (currentContent es)))"
  shows "(entitiesResolve (currentContent es) \<longrightarrow>
            (\<exists>es'. filterEditorState es n hr bts sts ets = Inr es')) \<and>
         (\<forall>es'. filterEditorState es n hr bts sts ets = Inr es' \<longrightarrow>
            map fst (blockMap (currentContent es')) = map fst (blockMap (currentContent es))) \<and>
         (\<forall>es'. preserveAtomicBlocks es ets = Inr es' \<longrightarrow>
            map fst (blockMap (currentContent es')) = map fst (blockMap (currentContent es))) \<and>
         map fst (blockMap (currentContent (resetBlockDepth es n))) =
           map fst (blockMap (currentContent es)) \<and>
         map fst (blockMap (currentContent (resetBlockType es bts))) =
           map fst (blockMap (currentContent es)) \<and>
         map fst (blockMap (currentContent (filterInlineStyle es sts))) =
           map fst (blockMap (currentContent es)) \<and>
         (\<forall>es'. resetAtomicBlocks es ets = Inr es' \<longrightarrow>
            map fst (blockMap (currentContent es')) = map fst (blockMap (currentContent es))) \<and>
         (\<forall>es'. filterEntityType es ets = Inr es' \<longrightarrow>
            map fst (blockMap (currentContent es')) = map fst (blockMap (currentContent es)))"
  using filterEditorState_total [OF d] filterEditorState_keys [OF d]
    preserveAtomicBlocks_keys [OF d] resetBlockDepth_keys [OF d] resetBlockType_keys [OF d]
    filterInlineStyle_keys [OF d] resetAtomicBlocks_keys [OF d] filterEntityType_keys [OF d]
  by blast

theorem filterEditorState_keeps_block_keys_witness:
  "distinct (map fst (blockMap (currentContent exB_state))) \<and>
   entitiesResolve (currentContent exB_state) \<and>
   (\<exists>es'. filterEditorState exB_state 0 False [] [] [''IMAGE''] = Inr es' \<and>
          map fst (blockMap (currentContent es')) = [''a'', ''b''])"
proof -
  have d: "distinct (map fst (blockMap (currentContent exB_state)))"
    by (simp add: exB_state_def)
  have e: "entitiesResolve (currentContent exB_state)"
    by (simp add: exB_state_def entitiesResolve_def blockResolves_def charResolves_def)
  from filterEditorState_keeps_block_keys [OF d, of 0 False "[]" "[]" "[''IMAGE'']"] e
  obtain es' where "filterEditorState exB_state 0 False [] [] [''IMAGE''] = Inr es'"
    and "map fst (blockMap (currentContent es')) = map fst (blockMap (currentContent exB_state))"
    by blast
  then show ?thesis using d e by (auto simp: exB_state_def)
qed

section \<open>The demotion step of resetAtomicBlocks\<close>

lemma getEntityAt_normIf [simp]: "getEntityAt (normIf b) 0 = getEntityAt b 0"
  by (cases "characterList b")
     (simp_all add: getEntityAt_def normIf_def normaliseBlock_def Let_def)

lemma shouldReset_normIf [simp]: "shouldReset c ts (normIf b) = shouldReset c ts b"
  by (simp add: shouldReset_def)

lemma resets_normIf [simp]: "resets c ts (normIf b) = resets c ts b"
  by (simp add: resets_def)

lemma resetAtomicBlocks_defined:
  assumes d: "distinct (map fst (blockMap (currentContent es)))"
    and r: "resetAtomicBlocks es ts = Inr es'"
    and p: "p \<in> set (blockMap (currentContent es))"
    and a: "blockType (snd p) = ATOMIC"
  shows "\<exists>b. shouldReset (currentContent es) ts (snd p) = Inr b"
proof -
  let ?c = "currentContent es"
  from r obtain toReset where
    t: "om_filterE (shouldReset ?c ts)
          (om_filter (\<lambda>b. blockType b = ATOMIC) (om_map normIf (blockMap ?c))) = Inr toReset"
    unfolding resetAtomicBlocks_def Let_def bindE_eq_Inr resetAtomicBlocks_blocks1 [OF d]
    by blast
  from p a have "(fst p, normIf (snd p)) \<in>
      set (om_filter (\<lambda>b. blockType b = ATOMIC) (om_map normIf (blockMap ?c)))"
    by (auto simp: om_filter_def set_om_map)
  from om_filterE_defined [OF t this] show ?thesis by simp
qed

lemma resetAtomicBlocks_blockType:
  assumes d: "distinct (map fst (blockMap (currentContent es)))"
    and r: "resetAtomicBlocks es ts = Inr es'"
    and i: "i < length (blockMap (currentContent es))"
  shows "blockType (snd (blockMap (currentContent es') ! i)) =
         (if resets (currentContent es) ts (snd (blockMap (currentContent es) ! i))
          then UNSTYLED else blockType (snd (blockMap (currentContent es) ! i)))"
proof (cases "list_ex (\<lambda>p. resets (currentContent es) ts (normIf (snd p))) (blockMap (currentContent es))")
  case True
  then show ?thesis
    unfolding resetAtomicBlocks_Inr [OF d r] using i by (simp add: nth_om_map)
next
  case False
  with i have "\<not> resets (currentContent es) ts (snd (blockMap (currentContent es) ! i))"
    by (auto simp: list_ex_iff)
  with False show ?thesis
    unfolding resetAtomicBlocks_Inr [OF d r] using i by (simp add: nth_om_map)
qed

text \<open>
  Claim C1, as amended.  In the demotion step of \<open>resetAtomicBlocks\<close>, an atomic block
  whose character at offset 0 (the same before and after shape normalisation) carries an
  entity becomes \<open>unstyled\<close> exactly when the type of that entity is not enabled; an
  atomic block whose character at offset 0 carries no entity stays atomic.  The pass
  returns when every entity reference of the document resolves.
\<close>

theorem resetAtomicBlocks_demotion:
  assumes d: "distinct (map fst (blockMap (currentContent es)))"
    and i: "i < length (blockMap (currentContent es))"
    and a: "blockType (snd (blockMap (currentContent es) ! i)) = ATOMIC"
  shows "(entitiesResolve (currentContent es) \<longrightarrow> (\<exists>es'. resetAtomicBlocks es ts = Inr es')) \<and>
         (\<forall>es'. resetAtomicBlocks es ts = Inr es' \<longrightarrow>
            length (blockMap (currentContent es')) = length (blockMap (currentContent es)) \<and>
            fst (blockMap (currentContent es') ! i) = fst (blockMap (currentContent es) ! i) \<and>
            getEntityAt (normIf (snd (blockMap (currentContent es) ! i))) 0 =
              getEntityAt (snd (blockMap (currentContent es) ! i)) 0 \<and>
            (case truthy (getEntityAt (normIf (snd (blockMap (currentContent es) ! i))) 0) of
               None \<Rightarrow> blockType (snd (blockMap (currentContent es') ! i)) = ATOMIC
             | Some k \<Rightarrow>
                 (\<exists>e. map_of (entityMap (currentContent es)) k = Some e \<and>
                      blockType (snd (blockMap (currentContent es') ! i)) =
                        (if entityType e \<in> set ts then ATOMIC else UNSTYLED))))"
proof (intro conjI allI impI)
  assume "entitiesResolve (currentContent es)"
  with d show "\<exists>es'. resetAtomicBlocks es ts = Inr es'" by (rule resetAtomicBlocks_total)
next
  fix es' assume r: "resetAtomicBlocks es ts = Inr es'"
  let ?c = "currentContent es"
  let ?b = "snd (blockMap ?c ! i)"
  let ?b' = "snd (blockMap (currentContent es') ! i)"
  from resetAtomicBlocks_keys [OF d r]
  have k: "map fst (blockMap (currentContent es')) = map fst (blockMap ?c)" .
  then show len: "length (blockMap (currentContent es')) = length (blockMap ?c)"
    by (metis length_map)
  with i k show "fst (blockMap (currentContent es') ! i) = fst (blockMap ?c ! i)"
    by (metis nth_map)
  show "getEntityAt (normIf ?b) 0 = getEntityAt ?b 0" by simp
  have ty: "blockType ?b' = (if resets ?c ts ?b then UNSTYLED else ATOMIC)"
    using resetAtomicBlocks_blockType [OF d r i] a by simp
  from i have "blockMap ?c ! i \<in> set (blockMap ?c)" by simp
  from resetAtomicBlocks_defined [OF d r this a] obtain x where
    x: "shouldReset ?c ts ?b = Inr x" by blast
  show "case truthy (getEntityAt (normIf ?b) 0) of
          None \<Rightarrow> blockType ?b' = ATOMIC
        | Some k \<Rightarrow>
            (\<exists>e. map_of (entityMap ?c) k = Some e \<and>
                 blockType ?b' = (if entityType e \<in> set ts then ATOMIC else UNSTYLED))"
  proof (cases "truthy (getEntityAt ?b 0)")
    case None
    then have "\<not> resets ?c ts ?b" by (simp add: resets_def shouldReset_def)
    with ty None show ?thesis by simp
  next
    case (Some k)
    with x obtain e where e: "map_of (entityMap ?c) k = Some e"
      by (auto simp: shouldReset_def getEntity_def split: option.splits)
    with Some a have "resets ?c ts ?b \<longleftrightarrow> entityType e \<notin> set ts"
      by (simp add: resets_def shouldReset_def getEntity_def)
    with ty Some e show ?thesis by simp
  qed
qed

text \<open>
  The claim as first stated asks for \<open>unstyled\<close> when there is no entity at offset 0.
  The block of \<open>exA_state\<close> is atomic with no entity there, and the pass returns the
  state as it was, the block still atomic.
\<close>

theorem resetAtomicBlocks_demotion_counterexample:
  "blockType (snd (blockMap (currentContent exA_state) ! 0)) = ATOMIC \<and>
   getEntityAt (snd (blockMap (currentContent exA_state) ! 0)) 0 = None \<and>
   resetAtomicBlocks exA_state [] = Inr exA_state \<and>
   blockType (snd (blockMap (currentContent exA_state) ! 0)) \<noteq> UNSTYLED"
  by code_simp

theorem resetAtomicBlocks_demotion_witness:
  "distinct (map fst (blockMap (currentContent exB_state))) \<and>
   1 < length (blockMap (currentContent exB_state)) \<and>
   blockType (snd (blockMap (currentContent exB_state) ! 1)) = ATOMIC \<and>
   entitiesResolve (currentContent exB_state) \<and>
   truthy (getEntityAt (snd (blockMap (currentContent exB_state) ! 1)) 0) = Some ''2'' \<and>
   (\<exists>es'. resetAtomicBlocks exB_state [''IMAGE''] = Inr es' \<and>
          blockType (snd (blockMap (currentContent es') ! 1)) = UNSTYLED)"
proof -
  have d: "distinct (map fst (blockMap (currentContent exB_state)))"
    by (simp add: exB_state_def)
  have i: "1 < length (blockMap (currentContent exB_state))"
    by (simp add: exB_state_def)
  have a: "blockType (snd (blockMap (currentContent exB_state) ! 1)) = ATOMIC"
    by (simp add: exB_state_def ATOMIC_def)
  have e: "entitiesResolve (currentContent exB_state)"
    by (simp add: exB_state_def entitiesResolve_def blockResolves_def charResolves_def)
  have g: "truthy (getEntityAt (snd (blockMap (currentContent exB_state) ! 1)) 0) = Some ''2''"
    by (simp add: exB_state_def getEntityAt_def)
  have m: "map_of (entityMap (currentContent exB_state)) ''2'' =
             Some \<lparr>entityType = ''EMBED'', entityData = []\<rparr>"
    by (simp add: exB_state_def)
  note t = resetAtomicBlocks_demotion [OF d i a, of "[''IMAGE'']"]
  from t e obtain es' where r: "resetAtomicBlocks exB_state [''IMAGE''] = Inr es'" by blast
  with t have "case truthy (getEntityAt (normIf (snd (blockMap (currentContent exB_state) ! 1))) 0) of
          None \<Rightarrow> blockType (snd (blockMap (currentContent es') ! 1)) = ATOMIC
        | Some k \<Rightarrow>
            (\<exists>e. map_of (entityMap (currentContent exB_state)) k = Some e \<and>
                 blockType (snd (blockMap (currentContent es') ! 1)) =
                   (if entityType e \<in> set [''IMAGE''] then ATOMIC else UNSTYLED))"
    by blast
  with g m have "blockType (snd (blockMap (currentContent es') ! 1)) = UNSTYLED"
    by simp
  with r have "\<exists>es'. resetAtomicBlocks exB_state [''IMAGE''] = Inr es' \<and>
          blockType (snd (blockMap (currentContent es') ! 1)) = UNSTYLED"
    by (intro exI [where x = es'] conjI)
  with d i a e g show ?thesis by (intro conjI)
qed

section \<open>Promotion of annotated blocks and the block types of the output\<close>

text \<open>
  A block promoted by \<open>preserveAtomicBlocks\<close> whose entity type is enabled stays atomic,
  with its entity, through every later pass.
\<close>

lemma getEntityAt_blockType [simp]: "getEntityAt (b\<lparr>blockType := t\<rparr>) i = getEntityAt b i"
  by (simp add: getEntityAt_def)

lemma getEntityAt_depth [simp]: "getEntityAt (b\<lparr>depth := n\<rparr>) i = getEntityAt b i"
  by (simp add: getEntityAt_def)

lemma entity_filterCharStyle [simp]: "entity (fst (filterCharStyle ts ch)) = entity ch"
  by (simp add: filterCharStyle_def Let_def)

lemma getEntityAt_filterBlockStyle [simp]:
  "getEntityAt (filterBlockStyle ts b) i = getEntityAt b i"
  by (simp add: filterBlockStyle_def getEntityAt_def Let_def)

lemma preserveAtomicBlocks_entityMap:
  assumes "distinct (map fst (blockMap (currentContent es)))"
    and "preserveAtomicBlocks es ts = Inr es'"
  shows "entityMap (currentContent es') = entityMap (currentContent es)"
  using preserveAtomicBlocks_Inr [OF assms] by simp

lemma resetBlockDepth_entityMap [simp]:
  "entityMap (currentContent (resetBlockDepth es n)) = entityMap (currentContent es)"
  by (simp add: resetBlockDepth_def Let_def)

lemma resetBlockType_entityMap [simp]:
  "entityMap (currentContent (resetBlockType es ts)) = entityMap (currentContent es)"
  by (simp add: resetBlockType_def Let_def)

lemma filterInlineStyle_entityMap [simp]:
  "entityMap (currentContent (filterInlineStyle es ts)) = entityMap (currentContent es)"
  by (simp add: filterInlineStyle_def Let_def)

lemma resetAtomicBlocks_entityMap:
  assumes "distinct (map fst (blockMap (currentContent es)))"
    and "resetAtomicBlocks es ts = Inr es'"
  shows "entityMap (currentContent es') = entityMap (currentContent es)"
  using resetAtomicBlocks_Inr [OF assms] by simp

lemma filterEntityType_entityMap:
  assumes "distinct (map fst (blockMap (currentContent es)))"
    and "filterEntityType es ts = Inr es'"
  shows "entityMap (currentContent es') = entityMap (currentContent es)"
  using filterEntityType_Inr [OF assms] by auto

lemma preserveAtomicBlocks_atomicWith:
  assumes d: "distinct (map fst (blockMap (currentContent es)))"
    and r: "preserveAtomicBlocks es ts = Inr s1"
    and i: "i < length (blockMap (currentContent es))"
    and k: "truthy (getEntityAt (snd (blockMap (currentContent es) ! i)) 0) = Some k"
    and e: "map_of (entityMap (currentContent es)) k = Some e"
    and t: "entityType e \<in> set ts"
  shows "atomicWithEntity s1 i k"
proof -
  have "hasListedEntity (currentContent es) ts (snd (blockMap (currentContent es) ! i)) = Inr True"
    using k e t by (simp add: hasListedEntity_def getEntity_def)
  moreover from k have "getEntityAt (snd (blockMap (currentContent es) ! i)) 0 = Some k"
    by (simp add: truthy_eq_Some)
  ultimately show ?thesis
    unfolding preserveAtomicBlocks_Inr [OF d r] atomicWithEntity_def using i
    by (simp add: nth_om_map)
qed

lemma resetBlockDepth_atomicWith:
  assumes d: "distinct (map fst (blockMap (currentContent s)))"
    and a: "atomicWithEntity s i k"
  shows "atomicWithEntity (resetBlockDepth s n) i k"
  using a unfolding resetBlockDepth_eq [OF d] atomicWithEntity_def
  by (simp add: nth_om_map)

lemma resetBlockType_atomicWith:
  assumes d: "distinct (map fst (blockMap (currentContent s)))"
    and t: "ATOMIC \<in> set ts"
    and a: "atomicWithEntity s i k"
  shows "atomicWithEntity (resetBlockType s ts) i k"
  using a t unfolding resetBlockType_eq [OF d] atomicWithEntity_def
  by (simp add: nth_om_map)

lemma filterInlineStyle_atomicWith:
  assumes d: "distinct (map fst (blockMap (currentContent s)))"
    and a: "atomicWithEntity s i k"
  shows "atomicWithEntity (filterInlineStyle s ts) i k"
  using a unfolding filterInlineStyle_eq [OF d] atomicWithEntity_def
  by (simp add: nth_om_map)

lemma resetAtomicBlocks_entityAt:
  assumes d: "distinct (map fst (blockMap (currentContent es)))"
    and r: "resetAtomicBlocks es ts = Inr es'"
    and i: "i < length (blockMap (currentContent es))"
  shows "getEntityAt (snd (blockMap (currentContent es') ! i)) 0 =
         getEntityAt (snd (blockMap (currentContent es) ! i)) 0"
  unfolding resetAtomicBlocks_Inr [OF d r] using i
  by (simp add: nth_om_map)

lemma resetAtomicBlocks_atomicWith:
  assumes d: "distinct (map fst (blockMap (currentContent s)))"
    and r: "resetAtomicBlocks s ts = Inr s'"
    and a: "atomicWithEntity s i k"
    and ne: "k \<noteq> []"
    and e: "map_of (entityMap (currentContent s)) k = Some e"
    and t: "entityType e \<in> set ts"
  shows "atomicWithEntity s' i k"
proof -
  from a have i: "i < length (blockMap (currentContent s))"
    and ty: "blockType (snd (blockMap (currentContent s) ! i)) = ATOMIC"
    and g: "getEntityAt (snd (blockMap (currentContent s) ! i)) 0 = Some k"
    by (simp_all add: atomicWithEntity_def)
  from g ne e t have "\<not> resets (currentContent s) ts (snd (blockMap (currentContent s) ! i))"
    by (simp add: resets_def shouldReset_def getEntity_def)
  with resetAtomicBlocks_blockType [OF d r i] ty
  have "blockType (snd (blockMap (currentContent s') ! i)) = ATOMIC" by simp
  moreover from resetAtomicBlocks_keys [OF d r]
  have "length (blockMap (currentContent s')) = length (blockMap (currentContent s))"
    by (metis length_map)
  ultimately show ?thesis
    using i g resetAtomicBlocks_entityAt [OF d r i] by (simp add: atomicWithEntity_def)
qed

lemma filterEntityType_atomicWith:
  assumes d: "distinct (map fst (blockMap (currentContent s)))"
    and r: "filterEntityType s ts = Inr s'"
    and a: "atomicWithEntity s i k"
    and ne: "k \<noteq> []"
    and e: "map_of (entityMap (currentContent s)) k = Some e"
    and t: "entityType e \<in> set ts"
  shows "atomicWithEntity s' i k"
proof -
  let ?b = "snd (blockMap (currentContent s) ! i)"
  let ?b' = "snd (blockMap (currentContent s') ! i)"
  from a have i: "i < length (blockMap (currentContent s))"
    and ty: "blockType ?b = ATOMIC"
    and g: "getEntityAt ?b 0 = Some k"
    by (simp_all add: atomicWithEntity_def)
  from g have l: "0 < length (characterList ?b)" and c0: "entity (characterList ?b ! 0) = Some k"
    by (auto simp: getEntityAt_def split: if_splits)
  from filterEntityType_blocks [OF d r i] obtain rs where
    len: "length (blockMap (currentContent s')) = length (blockMap (currentContent s))"
    and rs: "list_all2 (\<lambda>x y. filterCharEntity (currentContent s) ts (blockType ?b) x = Inr y)
              (characterList ?b) rs"
    and b': "?b' = ?b\<lparr>characterList := map fst rs\<rparr>"
    by blast
  from rs have lr: "length rs = length (characterList ?b)" by (simp add: list_all2_lengthD)
  from list_all2_nthD [OF rs l]
  have "filterCharEntity (currentContent s) ts (blockType ?b) (characterList ?b ! 0) = Inr (rs ! 0)" .
  from filterCharEntity_Inr [OF this] c0 ne e t ty
  have "entity (fst (rs ! 0)) = Some k"
    by (simp add: shouldRemoveImageEntity_def)
  with l lr have "getEntityAt ?b' 0 = Some k" by (simp add: b' getEntityAt_def)
  with i len ty b' show ?thesis by (simp add: atomicWithEntity_def)
qed

lemma filterEditorState_promoted:
  assumes d: "distinct (map fst (blockMap (currentContent es)))"
    and r: "filterEditorState es n hr bts sts ets = Inr es'"
    and i: "i < length (blockMap (currentContent es))"
    and k: "truthy (getEntityAt (snd (blockMap (currentContent es) ! i)) 0) = Some k"
    and e: "map_of (entityMap (currentContent es)) k = Some e"
    and t: "entityType e \<in> {HORIZONTAL_RULE, IMAGE}"
    and en: "entityType e \<in> set (if hr then ets @ [HORIZONTAL_RULE] else ets)"
  shows "atomicWithEntity es' i k"
proof -
  let ?ets = "if hr then ets @ [HORIZONTAL_RULE] else ets"
  from d r obtain s1 s5 where
    s1: "preserveAtomicBlocks es [HORIZONTAL_RULE, IMAGE] = Inr s1"
    and s5: "resetAtomicBlocks
           (filterInlineStyle (resetBlockType (resetBlockDepth s1 n) (bts @ [UNSTYLED, ATOMIC])) sts)
           ?ets = Inr s5"
    and s6: "filterEntityType s5 ?ets = Inr es'"
    and d1: "distinct (map fst (blockMap (currentContent s1)))"
    and d2: "distinct (map fst (blockMap (currentContent (resetBlockDepth s1 n))))"
    and d3: "distinct (map fst (blockMap (currentContent
               (resetBlockType (resetBlockDepth s1 n) (bts @ [UNSTYLED, ATOMIC])))))"
    and d4: "distinct (map fst (blockMap (currentContent
               (filterInlineStyle (resetBlockType (resetBlockDepth s1 n) (bts @ [UNSTYLED, ATOMIC])) sts))))"
    and d5: "distinct (map fst (blockMap (currentContent s5)))"
    by (rule filterEditorState_stages)
  let ?s2 = "resetBlockDepth s1 n"
  let ?s3 = "resetBlockType ?s2 (bts @ [UNSTYLED, ATOMIC])"
  let ?s4 = "filterInlineStyle ?s3 sts"
  from k have ne: "k \<noteq> []" by (simp add: truthy_eq_Some)
  from t have t': "entityType e \<in> set [HORIZONTAL_RULE, IMAGE]" by simp
  have a1: "atomicWithEntity s1 i k"
    by (rule preserveAtomicBlocks_atomicWith [OF d s1 i k e t'])
  have m1: "entityMap (currentContent s1) = entityMap (currentContent es)"
    by (rule preserveAtomicBlocks_entityMap [OF d s1])
  have a2: "atomicWithEntity ?s2 i k" by (rule resetBlockDepth_atomicWith [OF d1 a1])
  have a3: "atomicWithEntity ?s3 i k" by (rule resetBlockType_atomicWith [OF d2 _ a2]) simp
  have a4: "atomicWithEntity ?s4 i k" by (rule filterInlineStyle_atomicWith [OF d3 a3])
  have m4: "entityMap (currentContent ?s4) = entityMap (currentContent es)"
    using m1 by simp
  from e m4 have e4: "map_of (entityMap (currentContent ?s4)) k = Some e" by simp
  have a5: "atomicWithEntity s5 i k"
    by (rule resetAtomicBlocks_atomicWith [OF d4 s5 a4 ne e4 en])
  from resetAtomicBlocks_entityMap [OF d4 s5] e4
  have e5: "map_of (entityMap (currentContent s5)) k = Some e" by simp
  show ?thesis by (rule filterEntityType_atomicWith [OF d5 s6 a5 ne e5 en])
qed

text \<open>The pipeline on the heading that carries an image.\<close>

lemma exP_run:
  "filterEditorState exP_state 0 False [] [] [''IMAGE''] =
     Inr (setBlockMap exP_state
        [(''a'', \<lparr>blockType = ''atomic'', blockText = '' '', depth = 0,
                 characterList = [\<lparr>style = [], entity = Some ''1''\<rparr>]\<rparr>),
         (''b'', \<lparr>blockType = ''unstyled'', blockText = ''y'', depth = 0,
                 characterList = [\<lparr>style = [], entity = None\<rparr>]\<rparr>)])"
  by code_simp

text \<open>
  Claim C9.  Every block of the output of \<open>filterEditorState\<close> has a type among the
  caller's block types, \<open>unstyled\<close> and \<open>atomic\<close>: the orchestrator adds the two to the
  enabled types whatever the caller gave.  A block that \<open>preserveAtomicBlocks\<close> promotes
  (its first character carries a horizontal rule or image entity) is atomic before
  \<open>resetBlockType\<close> runs, and still atomic after it.  So in the output of
  \<open>filterEditorState\<close> a block whose first character carries an enabled horizontal rule
  or image entity is atomic and still carries that entity, whatever its type was and
  whatever block types the caller enabled.
\<close>

theorem filterEditorState_block_types:
  assumes d: "distinct (map fst (blockMap (currentContent es)))"
  shows "(entitiesResolve (currentContent es) \<longrightarrow>
            (\<exists>es'. filterEditorState es n hr bts sts ets = Inr es')) \<and>
         (\<forall>es'. filterEditorState es n hr bts sts ets = Inr es' \<longrightarrow>
            (\<forall>p \<in> set (blockMap (currentContent es')).
               blockType (snd p) \<in> set bts \<union> {UNSTYLED, ATOMIC})) \<and>
         (\<forall>s1 i k e. preserveAtomicBlocks es [HORIZONTAL_RULE, IMAGE] = Inr s1 \<longrightarrow>
            i < length (blockMap (currentContent es)) \<longrightarrow>
            truthy (getEntityAt (snd (blockMap (currentContent es) ! i)) 0) = Some k \<longrightarrow>
            map_of (entityMap (currentContent es)) k = Some e \<longrightarrow>
            entityType e \<in> {HORIZONTAL_RULE, IMAGE} \<longrightarrow>
            blockType (snd (blockMap (currentContent s1) ! i)) = ATOMIC \<and>
            blockType (snd (blockMap (currentContent
              (resetBlockType (resetBlockDepth s1 n) (bts @ [UNSTYLED, ATOMIC]))) ! i)) = ATOMIC) \<and>
         (\<forall>es' i k e. filterEditorState es n hr bts sts ets = Inr es' \<longrightarrow>
            i < length (blockMap (currentContent es)) \<longrightarrow>
            truthy (getEntityAt (snd (blockMap (currentContent es) ! i)) 0) = Some k \<longrightarrow>
            map_of (entityMap (currentContent es)) k = Some e \<longrightarrow>
            entityType e \<in> {HORIZONTAL_RULE, IMAGE} \<longrightarrow>
            entityType e \<in> set (if hr then ets @ [HORIZONTAL_RULE] else ets) \<longrightarrow>
            i < length (blockMap (currentContent es')) \<and>
            blockType (snd (blockMap (currentContent es') ! i)) = ATOMIC \<and>
            getEntityAt (snd (blockMap (currentContent es') ! i)) 0 = Some k)"
proof (intro conjI allI impI ballI)
  assume "entitiesResolve (currentContent es)"
  with d show "\<exists>es'. filterEditorState es n hr bts sts ets = Inr es'"
    by (rule filterEditorState_total)
next
  fix es' p
  assume "filterEditorState es n hr bts sts ets = Inr es'"
    and "p \<in> set (blockMap (currentContent es'))"
  with d show "blockType (snd p) \<in> set bts \<union> {UNSTYLED, ATOMIC}"
    by (rule filterEditorState_types)
next
  fix s1 i k e
  assume s1: "preserveAtomicBlocks es [HORIZONTAL_RULE, IMAGE] = Inr s1"
    and i: "i < length (blockMap (currentContent es))"
    and k: "truthy (getEntityAt (snd (blockMap (currentContent es) ! i)) 0) = Some k"
    and e: "map_of (entityMap (currentContent es)) k = Some e"
    and t: "entityType e \<in> {HORIZONTAL_RULE, IMAGE}"
  from t have t': "entityType e \<in> set [HORIZONTAL_RULE, IMAGE]" by simp
  have a1: "atomicWithEntity s1 i k"
    by (rule preserveAtomicBlocks_atomicWith [OF d s1 i k e t'])
  then show "blockType (snd (blockMap (currentContent s1) ! i)) = ATOMIC"
    by (simp add: atomicWithEntity_def)
  have d1: "distinct (map fst (blockMap (currentContent s1)))"
    using preserveAtomicBlocks_keys [OF d s1] d by simp
  have d2: "distinct (map fst (blockMap (currentContent (resetBlockDepth s1 n))))"
    using resetBlockDepth_keys [OF d1] d1 by simp
  have a2: "atomicWithEntity (resetBlockDepth s1 n) i k"
    by (rule resetBlockDepth_atomicWith [OF d1 a1])
  have "atomicWithEntity (resetBlockType (resetBlockDepth s1 n) (bts @ [UNSTYLED, ATOMIC])) i k"
    by (rule resetBlockType_atomicWith [OF d2 _ a2]) simp
  then show "blockType (snd (blockMap (currentContent
          (resetBlockType (resetBlockDepth s1 n) (bts @ [UNSTYLED, ATOMIC]))) ! i)) = ATOMIC"
    by (simp add: atomicWithEntity_def)
next
  fix es' i k e
  assume r: "filterEditorState es n hr bts sts ets = Inr es'"
    and i: "i < length (blockMap (currentContent es))"
    and k: "truthy (getEntityAt (snd (blockMap (currentContent es) ! i)) 0) = Some k"
    and e: "map_of (entityMap (currentContent es)) k = Some e"
    and t: "entityType e \<in> {HORIZONTAL_RULE, IMAGE}"
    and en: "entityType e \<in> set (if hr then ets @ [HORIZONTAL_RULE] else ets)"
  from filterEditorState_promoted [OF d r i k e t en]
  have a: "atomicWithEntity es' i k" .
  from a show "i < length (blockMap (currentContent es'))" by (simp add: atomicWithEntity_def)
  from a show "blockType (snd (blockMap (currentContent es') ! i)) = ATOMIC"
    by (simp add: atomicWithEntity_def)
  from a show "getEntityAt (snd (blockMap (currentContent es') ! i)) 0 = Some k"
    by (simp add: atomicWithEntity_def)
qed

theorem filterEditorState_block_types_witness:
  "distinct (map fst (blockMap (currentContent exP_state))) \<and>
   entitiesResolve (currentContent exP_state) \<and>
   blockType (snd (blockMap (currentContent exP_state) ! 0)) = ''header-two'' \<and>
   truthy (getEntityAt (snd (blockMap (currentContent exP_state) ! 0)) 0) = Some ''1'' \<and>
   map_of (entityMap (currentContent exP_state)) ''1'' =
     Some \<lparr>entityType = IMAGE, entityData = []\<rparr> \<and>
   (\<exists>es'. filterEditorState exP_state 0 False [] [] [IMAGE] = Inr es' \<and>
          map (\<lambda>p. blockType (snd p)) (blockMap (currentContent es')) = [ATOMIC, UNSTYLED] \<and>
          getEntityAt (snd (blockMap (currentContent es') ! 0)) 0 = Some ''1'')"
proof -
  let ?e = "\<lparr>entityType = IMAGE, entityData = []\<rparr>"
  have d: "distinct (map fst (blockMap (currentContent exP_state)))"
    by (simp add: exP_state_def)
  have r: "entitiesResolve (currentContent exP_state)"
    by (simp add: exP_state_def entitiesResolve_def blockResolves_def charResolves_def)
  have ty: "blockType (snd (blockMap (currentContent exP_state) ! 0)) = ''header-two''"
    by (simp add: exP_state_def)
  have i: "0 < length (blockMap (currentContent exP_state))"
    by (simp add: exP_state_def)
  have k: "truthy (getEntityAt (snd (blockMap (currentContent exP_state) ! 0)) 0) = Some ''1''"
    by (simp add: exP_state_def getEntityAt_def)
  have e: "map_of (entityMap (currentContent exP_state)) ''1'' = Some ?e"
    by (simp add: exP_state_def IMAGE_def)
  have t: "entityType ?e \<in> {HORIZONTAL_RULE, IMAGE}" by simp
  have en: "entityType ?e \<in> set (if False then [IMAGE] @ [HORIZONTAL_RULE] else [IMAGE])" by simp
  note th = filterEditorState_block_types [OF d, of 0 False "[]" "[]" "[IMAGE]"]
  from th r obtain es' where s: "filterEditorState exP_state 0 False [] [] [IMAGE] = Inr es'"
    by blast
  from th s i k e t en
  have a: "blockType (snd (blockMap (currentContent es') ! 0)) = ATOMIC"
    and g: "getEntityAt (snd (blockMap (currentContent es') ! 0)) 0 = Some ''1''"
    by blast+
  from s exP_run have "map (\<lambda>p. blockType (snd p)) (blockMap (currentContent es')) = [ATOMIC, UNSTYLED]"
    by (auto simp: ATOMIC_def UNSTYLED_def IMAGE_def)
  with s g have "\<exists>es'. filterEditorState exP_state 0 False [] [] [IMAGE] = Inr es' \<and>
          map (\<lambda>p. blockType (snd p)) (blockMap (currentContent es')) = [ATOMIC, UNSTYLED] \<and>
          getEntityAt (snd (blockMap (currentContent es') ! 0)) 0 = Some ''1''"
    by (intro exI [where x = es'] conjI)
  with d r ty k e show ?thesis by (intro conjI)
qed

section \<open>Atomic shape, alignment and idempotence\<close>

text \<open>
  When the pass demotes no block, every atomic block leaves it with the one-character
  text and no style at offset 0.
\<close>

lemma normIf_shape:
  assumes "blockType b = ATOMIC"
  shows "blockText (normIf b) = '' '' \<and> getInlineStyleAt (normIf b) 0 = []"
proof (cases "needsNormalising b")
  case True
  have "style (fold (\<lambda>t newChar. removeStyle newChar t) (style ch) ch) = []" for ch
    by (simp add: style_fold_removeStyle)
  with True show ?thesis
    by (cases "characterList b")
      (simp_all add: normIf_def normaliseBlock_def getInlineStyleAt_def Let_def)
next
  case False
  with assms show ?thesis
    by (simp add: normIf_def needsNormalising_def)
qed

lemma resetAtomicBlocks_shape_without_demotion:
  assumes d: "distinct (map fst (blockMap (currentContent es)))"
    and r: "resetAtomicBlocks es ts = Inr es'"
    and n: "\<not> list_ex (\<lambda>p. resets (currentContent es) ts (snd p)) (blockMap (currentContent es))"
    and p: "p \<in> set (blockMap (currentContent es'))"
    and a: "blockType (snd p) = ATOMIC"
  shows "blockText (snd p) = '' '' \<and> getInlineStyleAt (snd p) 0 = []"
proof -
  from n have "\<not> list_ex (\<lambda>p. resets (currentContent es) ts (normIf (snd p))) (blockMap (currentContent es))"
    by simp
  with resetAtomicBlocks_Inr [OF d r]
  have "es' = setBlockMap es (om_map normIf (blockMap (currentContent es)))" by simp
  with p obtain q where "q \<in> set (blockMap (currentContent es))" and "snd p = normIf (snd q)"
    by (auto simp: set_om_map)
  with a normIf_shape [of "snd q"] show ?thesis by simp
qed

text \<open>
  When every atomic block has at least one character, the pass keeps text and character
  list of the same length.
\<close>

lemma normIf_aligned:
  assumes "length (blockText b) = length (characterList b)"
    and "blockType b = ATOMIC \<longrightarrow> characterList b \<noteq> []"
  shows "length (blockText (normIf b)) = length (characterList (normIf b))"
  using assms
  by (cases "characterList b")
    (auto simp: normIf_def normaliseBlock_def needsNormalising_def Let_def)

lemma resetAtomicBlocks_keeps_alignment:
  assumes d: "distinct (map fst (blockMap (currentContent es)))"
    and r: "resetAtomicBlocks es ts = Inr es'"
    and al: "\<forall>q \<in> set (blockMap (currentContent es)).
               length (blockText (snd q)) = length (characterList (snd q)) \<and>
               (blockType (snd q) = ATOMIC \<longrightarrow> characterList (snd q) \<noteq> [])"
    and p: "p \<in> set (blockMap (currentContent es'))"
  shows "length (blockText (snd p)) = length (characterList (snd p))"
proof -
  from p resetAtomicBlocks_Inr [OF d r] obtain q where q: "q \<in> set (blockMap (currentContent es))"
    and c: "snd p = normIf (snd q) \<or> snd p = (normIf (snd q))\<lparr>blockType := UNSTYLED\<rparr> \<or> snd p = snd q"
    by (auto simp: set_om_map split: if_splits)
  from al q have "length (blockText (snd q)) = length (characterList (snd q))"
    and "blockType (snd q) = ATOMIC \<longrightarrow> characterList (snd q) \<noteq> []" by auto
  with c normIf_aligned [of "snd q"] show ?thesis by auto
qed

text \<open>In \<open>exB_state\<close> the first block needs normalising and the second is demoted.\<close>

lemma exB_blocks:
  "needsNormalising (snd (blockMap (currentContent exB_state) ! 0)) \<and>
   resets (currentContent exB_state) [''IMAGE''] (snd (blockMap (currentContent exB_state) ! 1))"
  by code_simp

text \<open>
  Claim C2 fails on the code.  In \<open>exB_state\<close> the first atomic block needs its shape
  normalised and the second is demoted.  The demoted blocks are merged into the block map
  the pass started from, not into the normalised one, so the first block leaves the
  pipeline atomic with its two characters of text.
\<close>

theorem filterEditorState_atomic_shape_failing:
  "filterEditorState exB_state 0 False [] [] [''IMAGE''] = Inr exB_out \<and>
   blockType (snd (blockMap (currentContent exB_out) ! 0)) = ATOMIC \<and>
   length (blockText (snd (blockMap (currentContent exB_out) ! 0))) = 2"
  by code_simp

text \<open>
  Claim C6 fails on the code, by the same merge: a second run on the output of the first
  finds no block to demote, normalises the atomic block the first run left as it was,
  and so returns another document.
\<close>

theorem filterEditorState_not_idempotent:
  "filterEditorState exB_state 0 False [] [] [''IMAGE''] = Inr exB_out \<and>
   filterEditorState exB_out 0 False [] [] [''IMAGE''] = Inr exB_out2 \<and>
   exB_out2 \<noteq> exB_out"
  by code_simp

text \<open>
  Claim C3 fails on the code.  An atomic block with no text has no first character to
  retain: \<open>resetAtomicBlocks\<close> gives it the one-character text and an empty character
  list.
\<close>

theorem resetAtomicBlocks_alignment_failing:
  "length (blockText (snd (blockMap (currentContent exN_state) ! 0))) =
     length (characterList (snd (blockMap (currentContent exN_state) ! 0))) \<and>
   resetAtomicBlocks exN_state [] = Inr exN_out \<and>
   filterEditorState exN_state 0 False [] [] [] = Inr exN_out \<and>
   length (blockText (snd (blockMap (currentContent exN_out) ! 0))) = 1 \<and>
   length (characterList (snd (blockMap (currentContent exN_out) ! 0))) = 0"
  by code_simp

section \<open>Selection reconciliation\<close>

lemma find_rev_last:
  assumes "find P (rev xs) = Some x"
  shows "\<exists>i < length xs. x = xs ! i \<and> P (xs ! i) \<and> (\<forall>j. i < j \<longrightarrow> j < length xs \<longrightarrow> \<not> P (xs ! j))"
proof -
  from assms obtain i where i: "i < length (rev xs)" and p: "P (rev xs ! i)"
    and x: "x = rev xs ! i" and m: "\<forall>j < i. \<not> P (rev xs ! j)"
    unfolding find_Some_iff by blast
  let ?i = "length xs - Suc i"
  from i have il: "?i < length xs" by simp
  from i have ri: "rev xs ! i = xs ! ?i" by (simp add: rev_nth)
  have "\<not> P (xs ! j)" if "?i < j" "j < length xs" for j
  proof -
    let ?j = "length xs - Suc j"
    from that i have "?j < i" by arith
    with m have "\<not> P (rev xs ! ?j)" by blast
    moreover from that have "rev xs ! ?j = xs ! j" by (simp add: rev_nth)
    ultimately show ?thesis by simp
  qed
  with il p x ri show ?thesis by auto
qed

lemma dropWhile_neq_nth:
  "distinct ks \<Longrightarrow> i < length ks \<Longrightarrow> dropWhile (\<lambda>v. v \<noteq> ks ! i) ks = drop i ks"
proof (induction ks arbitrary: i)
  case Nil
  then show ?case by simp
next
  case (Cons x xs)
  show ?case
  proof (cases i)
    case 0
    then show ?thesis by simp
  next
    case (Suc j)
    with Cons.prems have j: "j < length xs" and "x \<notin> set xs" and dx: "distinct xs" by auto
    then have "xs ! j \<noteq> x" by (metis nth_mem)
    with Cons.IH [OF dx j] Suc show ?thesis by simp
  qed
qed

lemma getKeyAfter_nth:
  assumes d: "distinct (map fst (blockMap c))" and i: "i < length (blockMap c)"
  shows "getKeyAfter c (fst (blockMap c ! i)) =
         (if Suc i < length (blockMap c) then Some (fst (blockMap c ! Suc i)) else None)"
proof -
  let ?ks = "map fst (blockMap c)"
  have i': "i < length ?ks" using i by simp
  from dropWhile_neq_nth [OF d i'] i
  have "drop 1 (dropWhile (\<lambda>v. v \<noteq> fst (blockMap c ! i)) ?ks) = drop (Suc i) ?ks"
    by simp
  moreover have "drop (Suc i) ?ks = ?ks ! Suc i # drop (Suc (Suc i)) ?ks" if "Suc i < length (blockMap c)"
    using that Cons_nth_drop_Suc [of "Suc i" ?ks] by simp
  ultimately show ?thesis
    by (auto simp: getKeyAfter_def)
qed

lemma getKeyAfter_absent:
  "k \<notin> fst ` set (blockMap c) \<Longrightarrow> getKeyAfter c k = None"
proof -
  assume "k \<notin> fst ` set (blockMap c)"
  then have e: "dropWhile (\<lambda>v. v \<noteq> k) (map fst (blockMap c)) = []"
    by (auto simp: dropWhile_eq_Nil_conv)
  show ?thesis unfolding getKeyAfter_def e by simp
qed


lemma applyContentWithSelection_keep:
  assumes "\<not> isCollapsed (selection es) \<or> getBlockForKey nextContent (anchorKey (selection es)) \<noteq> None"
  shows "applyContentWithSelection es content nextContent = Inr (es\<lparr>currentContent := nextContent\<rparr>)"
  using assms by (auto simp: applyContentWithSelection_def Let_def)

lemma applyContentWithSelection_none:
  assumes "isCollapsed (selection es)"
    and "getBlockForKey nextContent (anchorKey (selection es)) = None"
    and "\<forall>k \<in> set (map fst (blockMap nextContent)). getKeyAfter content k = getKeyAfter nextContent k"
  shows "applyContentWithSelection es content nextContent = Inr (es\<lparr>currentContent := nextContent\<rparr>)"
proof -
  from assms(3) have "find (\<lambda>k. getKeyAfter content k \<noteq> getKeyAfter nextContent k)
      (rev (map fst (blockMap nextContent))) = None"
    by (simp add: find_None_iff)
  with assms(1,2) show ?thesis
    by (simp add: applyContentWithSelection_def Let_def)
qed

lemma applyContentWithSelection_move:
  assumes d: "distinct (map fst (blockMap nextContent))"
    and ne: "[] \<notin> set (map fst (blockMap nextContent))"
    and c: "isCollapsed (selection es)"
    and a: "getBlockForKey nextContent (anchorKey (selection es)) = None"
    and k: "k \<in> set (map fst (blockMap nextContent))"
    and n: "getKeyAfter content k \<noteq> getKeyAfter nextContent k"
  shows "\<exists>i < length (blockMap nextContent).
           getKeyAfter content (fst (blockMap nextContent ! i)) \<noteq>
             getKeyAfter nextContent (fst (blockMap nextContent ! i)) \<and>
           (\<forall>j. i < j \<longrightarrow> j < length (blockMap nextContent) \<longrightarrow>
              getKeyAfter content (fst (blockMap nextContent ! j)) =
                getKeyAfter nextContent (fst (blockMap nextContent ! j))) \<and>
           applyContentWithSelection es content nextContent =
             Inr (es\<lparr>currentContent := nextContent,
                     selection := (selection es)
                       \<lparr>anchorKey := fst (blockMap nextContent ! i),
                        focusKey := fst (blockMap nextContent ! i),
                        anchorOffset := length (blockText (snd (blockMap nextContent ! i))),
                        focusOffset := length (blockText (snd (blockMap nextContent ! i)))\<rparr>\<rparr>)"
proof -
  let ?ks = "map fst (blockMap nextContent)"
  let ?P = "\<lambda>k. getKeyAfter content k \<noteq> getKeyAfter nextContent k"
  from k n have "find ?P (rev ?ks) \<noteq> None" by (auto simp: find_None_iff)
  then obtain x where f: "find ?P (rev ?ks) = Some x" by blast
  from find_rev_last [OF f] obtain i where i: "i < length ?ks" and x: "x = ?ks ! i"
    and p: "?P (?ks ! i)" and m: "\<forall>j. i < j \<longrightarrow> j < length ?ks \<longrightarrow> \<not> ?P (?ks ! j)"
    by blast
  from i have i': "i < length (blockMap nextContent)" by simp
  have xi: "x = fst (blockMap nextContent ! i)" using x i' by simp
  have xne: "x \<noteq> []" using ne i x by (metis nth_mem)
  have "(fst (blockMap nextContent ! i), snd (blockMap nextContent ! i)) \<in> set (blockMap nextContent)"
    using i' by simp
  with d have g: "getBlockForKey nextContent x = Some (snd (blockMap nextContent ! i))"
    unfolding getBlockForKey_def xi by simp
  have r: "applyContentWithSelection es content nextContent =
             Inr (es\<lparr>currentContent := nextContent,
                     selection := (selection es)
                       \<lparr>anchorKey := fst (blockMap nextContent ! i),
                        focusKey := fst (blockMap nextContent ! i),
                        anchorOffset := length (blockText (snd (blockMap nextContent ! i))),
                        focusOffset := length (blockText (snd (blockMap nextContent ! i)))\<rparr>\<rparr>)"
    using c a f g xne by (simp add: applyContentWithSelection_def Let_def acceptSelection_def xi)
  from p i' have p': "?P (fst (blockMap nextContent ! i))" by simp
  from m have m': "\<forall>j. i < j \<longrightarrow> j < length (blockMap nextContent) \<longrightarrow>
              getKeyAfter content (fst (blockMap nextContent ! j)) =
                getKeyAfter nextContent (fst (blockMap nextContent ! j))"
    by simp
  from i' p' m' r show ?thesis by blast
qed

lemma applyContentWithSelection_scenario:
  assumes d: "distinct [a, b, c]"
    and ne: "a \<noteq> []"
    and old: "blockMap content = [(a, A), (b, B), (c, C)]"
    and new: "blockMap nextContent = [(a, A'), (c, C')]"
    and col: "isCollapsed (selection es)"
    and anc: "anchorKey (selection es) = b"
  shows "applyContentWithSelection es content nextContent =
           Inr (es\<lparr>currentContent := nextContent,
                   selection := (selection es)
                     \<lparr>anchorKey := a, focusKey := a,
                      anchorOffset := length (blockText A'),
                      focusOffset := length (blockText A')\<rparr>\<rparr>)"
  using assms
  by (auto simp: applyContentWithSelection_def getBlockForKey_def getKeyAfter_def
      acceptSelection_def Let_def)

text \<open>
  Claim C5.  \<open>applyContentWithSelection\<close> keeps the selection when it is not collapsed or
  when its anchor key is a block of the new content.  Otherwise, when some key of the new
  content has different successors in the old and the new content, the selection becomes
  the caret at the end of the text of the last such key (the first in reverse order);
  when there is none the selection is kept.  \<open>getKeyAfter\<close> is the immediate successor
  in the block order.  For an old content \<open>[a, b, c]\<close>, a new content \<open>[a, c]\<close> and a
  caret in \<open>b\<close>, the result is the caret at the end of the text of \<open>a\<close>.  Block keys
  are not empty, so the test \<open>if (nextAnchorKey)\<close> is the test that a key was found.
\<close>

theorem applyContentWithSelection_reconciles:
  assumes d: "distinct (map fst (blockMap nextContent))"
    and ne: "[] \<notin> set (map fst (blockMap nextContent))"
  shows
    "(\<not> isCollapsed (selection es) \<or>
        getBlockForKey nextContent (anchorKey (selection es)) \<noteq> None \<longrightarrow>
      applyContentWithSelection es content nextContent = Inr (es\<lparr>currentContent := nextContent\<rparr>)) \<and>
     (isCollapsed (selection es) \<and>
        getBlockForKey nextContent (anchorKey (selection es)) = None \<longrightarrow>
      (if \<exists>k \<in> set (map fst (blockMap nextContent)). getKeyAfter content k \<noteq> getKeyAfter nextContent k
       then \<exists>i < length (blockMap nextContent).
              getKeyAfter content (fst (blockMap nextContent ! i)) \<noteq>
                getKeyAfter nextContent (fst (blockMap nextContent ! i)) \<and>
              (\<forall>j. i < j \<longrightarrow> j < length (blockMap nextContent) \<longrightarrow>
                 getKeyAfter content (fst (blockMap nextContent ! j)) =
                   getKeyAfter nextContent (fst (blockMap nextContent ! j))) \<and>
              applyContentWithSelection es content nextContent =
                Inr (es\<lparr>currentContent := nextContent,
                        selection := (selection es)
                          \<lparr>anchorKey := fst (blockMap nextContent ! i),
                           focusKey := fst (blockMap nextContent ! i),
                           anchorOffset := length (blockText (snd (blockMap nextContent ! i))),
                           focusOffset := length (blockText (snd (blockMap nextContent ! i)))\<rparr>\<rparr>)
       else applyContentWithSelection es content nextContent =
              Inr (es\<lparr>currentContent := nextContent\<rparr>))) \<and>
     (\<forall>i < length (blockMap nextContent).
        getKeyAfter nextContent (fst (blockMap nextContent ! i)) =
          (if Suc i < length (blockMap nextContent)
           then Some (fst (blockMap nextContent ! Suc i)) else None)) \<and>
     (distinct (map fst (blockMap content)) \<longrightarrow>
        (\<forall>i < length (blockMap content).
           getKeyAfter content (fst (blockMap content ! i)) =
             (if Suc i < length (blockMap content)
              then Some (fst (blockMap content ! Suc i)) else None)) \<and>
        (\<forall>k. k \<notin> fst ` set (blockMap content) \<longrightarrow> getKeyAfter content k = None)) \<and>
     (\<forall>a b c A B C A' C'.
        distinct [a, b, c] \<longrightarrow>
        a \<noteq> [] \<longrightarrow>
        blockMap content = [(a, A), (b, B), (c, C)] \<longrightarrow>
        blockMap nextContent = [(a, A'), (c, C')] \<longrightarrow>
        isCollapsed (selection es) \<longrightarrow>
        anchorKey (selection es) = b \<longrightarrow>
        applyContentWithSelection es content nextContent =
          Inr (es\<lparr>currentContent := nextContent,
                  selection := (selection es)
                    \<lparr>anchorKey := a, focusKey := a,
                     anchorOffset := length (blockText A'),
                     focusOffset := length (blockText A')\<rparr>\<rparr>))"
proof (intro conjI)
  show "\<not> isCollapsed (selection es) \<or>
        getBlockForKey nextContent (anchorKey (selection es)) \<noteq> None \<longrightarrow>
      applyContentWithSelection es content nextContent = Inr (es\<lparr>currentContent := nextContent\<rparr>)"
    using applyContentWithSelection_keep by blast
next
  show "isCollapsed (selection es) \<and>
        getBlockForKey nextContent (anchorKey (selection es)) = None \<longrightarrow>
      (if \<exists>k \<in> set (map fst (blockMap nextContent)). getKeyAfter content k \<noteq> getKeyAfter nextContent k
       then \<exists>i < length (blockMap nextContent).
              getKeyAfter content (fst (blockMap nextContent ! i)) \<noteq>
                getKeyAfter nextContent (fst (blockMap nextContent ! i)) \<and>
              (\<forall>j. i < j \<longrightarrow> j < length (blockMap nextContent) \<longrightarrow>
                 getKeyAfter content (fst (blockMap nextContent ! j)) =
                   getKeyAfter nextContent (fst (blockMap nextContent ! j))) \<and>
              applyContentWithSelection es content nextContent =
                Inr (es\<lparr>currentContent := nextContent,
                        selection := (selection es)
                          \<lparr>anchorKey := fst (blockMap nextContent ! i),
                           focusKey := fst (blockMap nextContent ! i),
                           anchorOffset := length (blockText (snd (blockMap nextContent ! i))),
                           focusOffset := length (blockText (snd (blockMap nextContent ! i)))\<rparr>\<rparr>)
       else applyContentWithSelection es content nextContent =
              Inr (es\<lparr>currentContent := nextContent\<rparr>))"
  proof (intro impI, elim conjE)
    assume c: "isCollapsed (selection es)"
      and a: "getBlockForKey nextContent (anchorKey (selection es)) = None"
    show "if \<exists>k \<in> set (map fst (blockMap nextContent)). getKeyAfter content k \<noteq> getKeyAfter nextContent k
       then \<exists>i < length (blockMap nextContent).
              getKeyAfter content (fst (blockMap nextContent ! i)) \<noteq>
                getKeyAfter nextContent (fst (blockMap nextContent ! i)) \<and>
              (\<forall>j. i < j \<longrightarrow> j < length (blockMap nextContent) \<longrightarrow>
                 getKeyAfter content (fst (blockMap nextContent ! j)) =
                   getKeyAfter nextContent (fst (blockMap nextContent ! j))) \<and>
              applyContentWithSelection es content nextContent =
                Inr (es\<lparr>currentContent := nextContent,
                        selection := (selection es)
                          \<lparr>anchorKey := fst (blockMap nextContent ! i),
                           focusKey := fst (blockMap nextContent ! i),
                           anchorOffset := length (blockText (snd (blockMap nextContent ! i))),
                           focusOffset := length (blockText (snd (blockMap nextContent ! i)))\<rparr>\<rparr>)
       else applyContentWithSelection es content nextContent =
              Inr (es\<lparr>currentContent := nextContent\<rparr>)"
    proof (cases "\<exists>k \<in> set (map fst (blockMap nextContent)). getKeyAfter content k \<noteq> getKeyAfter nextContent k")
      case True
      then obtain k where "k \<in> set (map fst (blockMap nextContent))"
        "getKeyAfter content k \<noteq> getKeyAfter nextContent k" by blast
      from applyContentWithSelection_move [OF d ne c a this] True show ?thesis
        by (simp only: if_True)
    next
      case False
      then have "\<forall>k \<in> set (map fst (blockMap nextContent)). getKeyAfter content k = getKeyAfter nextContent k"
        by blast
      from applyContentWithSelection_none [OF c a this] False show ?thesis
        by (simp only: if_False)
    qed
  qed
next
  show "\<forall>i < length (blockMap nextContent).
        getKeyAfter nextContent (fst (blockMap nextContent ! i)) =
          (if Suc i < length (blockMap nextContent)
           then Some (fst (blockMap nextContent ! Suc i)) else None)"
    using getKeyAfter_nth [OF d] by blast
next
  show "distinct (map fst (blockMap content)) \<longrightarrow>
        (\<forall>i < length (blockMap content).
           getKeyAfter content (fst (blockMap content ! i)) =
             (if Suc i < length (blockMap content)
              then Some (fst (blockMap content ! Suc i)) else None)) \<and>
        (\<forall>k. k \<notin> fst ` set (blockMap content) \<longrightarrow> getKeyAfter content k = None)"
    using getKeyAfter_nth [of content] getKeyAfter_absent [of _ content] by blast
next
  show "\<forall>a b c A B C A' C'.
        distinct [a, b, c] \<longrightarrow>
        a \<noteq> [] \<longrightarrow>
        blockMap content = [(a, A), (b, B), (c, C)] \<longrightarrow>
        blockMap nextContent = [(a, A'), (c, C')] \<longrightarrow>
        isCollapsed (selection es) \<longrightarrow>
        anchorKey (selection es) = b \<longrightarrow>
        applyContentWithSelection es content nextContent =
          Inr (es\<lparr>currentContent := nextContent,
                  selection := (selection es)
                    \<lparr>anchorKey := a, focusKey := a,
                     anchorOffset := length (blockText A'),
                     focusOffset := length (blockText A')\<rparr>\<rparr>)"
    using applyContentWithSelection_scenario by blast
qed

theorem applyContentWithSelection_reconciles_witness:
  "distinct (map fst (blockMap exE_new)) \<and>
   [] \<notin> set (map fst (blockMap exE_new)) \<and>
   isCollapsed (selection exE_state) \<and>
   anchorKey (selection exE_state) = ''B'' \<and>
   getBlockForKey exE_new ''B'' = None \<and>
   applyContentWithSelection exE_state exE_old exE_new =
     Inr (exE_state\<lparr>currentContent := exE_new,
            selection := \<lparr>anchorKey = ''A'', anchorOffset = 3, focusKey = ''A'', focusOffset = 3,
                          isBackward = False, hasFocus = True\<rparr>\<rparr>)"
proof -
  have d: "distinct (map fst (blockMap exE_new))" by (simp add: exE_new_def)
  have ne: "[] \<notin> set (map fst (blockMap exE_new))" by (simp add: exE_new_def)
  have ane: "''A'' \<noteq> []" by simp
  have c: "isCollapsed (selection exE_state)" by (simp add: exE_state_def isCollapsed_def)
  have a: "anchorKey (selection exE_state) = ''B''" by (simp add: exE_state_def)
  have g: "getBlockForKey exE_new ''B'' = None" by (simp add: exE_new_def getBlockForKey_def)
  have d3: "distinct [''A'', ''B'', ''C'']" by simp
  have old: "blockMap exE_old =
      [(''A'', \<lparr>blockType = ''unstyled'', blockText = ''one'', depth = 0, characterList = []\<rparr>),
       (''B'', \<lparr>blockType = ''unstyled'', blockText = ''two'', depth = 0, characterList = []\<rparr>),
       (''C'', \<lparr>blockType = ''unstyled'', blockText = ''three'', depth = 0, characterList = []\<rparr>)]"
    by (simp add: exE_old_def)
  have new: "blockMap exE_new =
      [(''A'', \<lparr>blockType = ''unstyled'', blockText = ''one'', depth = 0, characterList = []\<rparr>),
       (''C'', \<lparr>blockType = ''unstyled'', blockText = ''three'', depth = 0, characterList = []\<rparr>)]"
    by (simp add: exE_new_def)
  from applyContentWithSelection_reconciles [OF d ne, of exE_state exE_old] d3 ane old new c a
  have "applyContentWithSelection exE_state exE_old exE_new =
          Inr (exE_state\<lparr>currentContent := exE_new,
                  selection := (selection exE_state)
                    \<lparr>anchorKey := ''A'', focusKey := ''A'',
                     anchorOffset := length (blockText
                       \<lparr>blockType = ''unstyled'', blockText = ''one'', depth = 0, characterList = []\<rparr>),
                     focusOffset := length (blockText
                       \<lparr>blockType = ''unstyled'', blockText = ''one'', depth = 0, characterList = []\<rparr>)\<rparr>\<rparr>)"
    by blast
  then have "applyContentWithSelection exE_state exE_old exE_new =
     Inr (exE_state\<lparr>currentContent := exE_new,
            selection := \<lparr>anchorKey = ''A'', anchorOffset = 3, focusKey = ''A'', focusOffset = 3,
                          isBackward = False, hasFocus = True\<rparr>\<rparr>)"
    by (simp add: exE_state_def)
  with d ne c a g show ?thesis by (intro conjI)
qed

section \<open>Attribute filtering\<close>

lemma map_of_om_set: "map_of (om_set k v m) = (map_of m)(k \<mapsto> v)"
  by (induction m) (auto simp: fun_eq_iff)

lemma keys_om_set: "fst ` set (om_set k v m) = insert k (fst ` set m)"
proof -
  have "fst ` set (om_set k v m) = set (map fst (om_set k v m))" by simp
  also have "\<dots> = insert k (fst ` set m)" unfolding om_set_keys by auto
  finally show ?thesis .
qed

lemma distinct_om_set: "distinct (map fst m) \<Longrightarrow> distinct (map fst (om_set k v m))"
  unfolding om_set_keys by auto

lemma foldE_Inr_Cons:
  "foldE f (x # xs) s = Inr s' \<longleftrightarrow> (\<exists>s1. f x s = Inr s1 \<and> foldE f xs s1 = Inr s')"
  by (auto split: sum.splits)

lemma foldE_append:
  "foldE f (xs @ ys) s = (case foldE f xs s of Inl e \<Rightarrow> Inl e | Inr s1 \<Rightarrow> foldE f ys s1)"
  by (induction xs arbitrary: s) (auto split: sum.splits)

text \<open>The run ends of a character list carry the entity keys of the whole list.\<close>

lemma rangeEnds_entity: "entity ` set (rangeEnds cs) = entity ` set cs"
  by (induction cs rule: rangeEnds.induct) auto

lemma rangeEnds_entities:
  "(\<lambda>x. truthy (entity x)) ` set (rangeEnds cs) = (\<lambda>x. truthy (entity x)) ` set cs"
proof -
  have "(\<lambda>x. truthy (entity x)) ` set xs = truthy ` entity ` set xs" for xs :: "characterMetadata list"
    by (simp add: image_image)
  then show ?thesis by (simp add: rangeEnds_entity)
qed

text \<open>The first loop of \<open>filterEntityAttributes\<close>.\<close>

lemma collectChar_Inr:
  assumes "collectChar c ch ents = Inr ents'"
  shows "(case truthy (entity ch) of
            None \<Rightarrow> ents' = ents
          | Some k \<Rightarrow> (\<exists>e. map_of (entityMap c) k = Some e \<and> ents' = om_set k e ents))"
  using assms by (auto simp: collectChar_def getEntity_def split: option.splits)

lemma set_om_set: "set (om_set k v m) \<subseteq> insert (k, v) (set m)"
  by (induction m) auto

lemma collectChar_facts:
  assumes "collectChar c ch ents = Inr ents'"
  shows "fst ` set ents' = fst ` set ents \<union> {k. Some k = truthy (entity ch)}"
    and "distinct (map fst ents) \<Longrightarrow> distinct (map fst ents')"
    and "\<forall>p \<in> set ents. map_of (entityMap c) (fst p) = Some (snd p) \<Longrightarrow>
         \<forall>p \<in> set ents'. map_of (entityMap c) (fst p) = Some (snd p)"
proof -
  show "fst ` set ents' = fst ` set ents \<union> {k. Some k = truthy (entity ch)}"
  proof (cases "truthy (entity ch)")
    case None
    with collectChar_Inr [OF assms] show ?thesis by simp
  next
    case (Some k)
    with collectChar_Inr [OF assms] obtain e where "ents' = om_set k e ents" by auto
    with Some show ?thesis by (simp add: keys_om_set)
  qed
  show "distinct (map fst ents')" if "distinct (map fst ents)"
  proof (cases "truthy (entity ch)")
    case None
    with collectChar_Inr [OF assms] that show ?thesis by simp
  next
    case (Some k)
    with collectChar_Inr [OF assms] obtain e where "ents' = om_set k e ents" by auto
    with that show ?thesis by (simp add: distinct_om_set)
  qed
  show "\<forall>p \<in> set ents'. map_of (entityMap c) (fst p) = Some (snd p)"
    if inv: "\<forall>p \<in> set ents. map_of (entityMap c) (fst p) = Some (snd p)"
  proof (cases "truthy (entity ch)")
    case None
    with collectChar_Inr [OF assms] inv show ?thesis by simp
  next
    case (Some k)
    with collectChar_Inr [OF assms] obtain e where e: "map_of (entityMap c) k = Some e"
      and e1: "ents' = om_set k e ents" by auto
    show ?thesis
    proof
      fix p assume "p \<in> set ents'"
      with set_om_set [of k e ents] have "p = (k, e) \<or> p \<in> set ents"
        unfolding e1 by blast
      then show "map_of (entityMap c) (fst p) = Some (snd p)"
      proof
        assume "p = (k, e)"
        with e show ?thesis by simp
      next
        assume "p \<in> set ents"
        with inv show ?thesis by blast
      qed
    qed
  qed
qed

lemma collectChars_Inr:
  assumes "foldE (collectChar c) chs ents = Inr ents'"
  shows "fst ` set ents' = fst ` set ents \<union> {k. Some k \<in> (\<lambda>x. truthy (entity x)) ` set chs} \<and>
         (distinct (map fst ents) \<longrightarrow> distinct (map fst ents')) \<and>
         ((\<forall>p \<in> set ents. map_of (entityMap c) (fst p) = Some (snd p)) \<longrightarrow>
          (\<forall>p \<in> set ents'. map_of (entityMap c) (fst p) = Some (snd p)))"
  using assms
proof (induction chs arbitrary: ents)
  case Nil
  then show ?case by simp
next
  case (Cons ch chs)
  from Cons.prems obtain e1 where c1: "collectChar c ch ents = Inr e1"
    and r: "foldE (collectChar c) chs e1 = Inr ents'"
    unfolding foldE_Inr_Cons by blast
  from Cons.IH [OF r]
  have k2: "fst ` set ents' = fst ` set e1 \<union> {k. Some k \<in> (\<lambda>x. truthy (entity x)) ` set chs}"
    and d2: "distinct (map fst e1) \<longrightarrow> distinct (map fst ents')"
    and m2: "(\<forall>p \<in> set e1. map_of (entityMap c) (fst p) = Some (snd p)) \<longrightarrow>
             (\<forall>p \<in> set ents'. map_of (entityMap c) (fst p) = Some (snd p))"
    by blast+
  note k1 = collectChar_facts(1) [OF c1]
    and d1 = collectChar_facts(2) [OF c1]
    and m1 = collectChar_facts(3) [OF c1]
  have s: "{k. Some k \<in> (\<lambda>x. truthy (entity x)) ` set (ch # chs)} =
           {k. Some k = truthy (entity ch)} \<union> {k. Some k \<in> (\<lambda>x. truthy (entity x)) ` set chs}"
    by auto
  have "fst ` set ents' = fst ` set ents \<union> {k. Some k \<in> (\<lambda>x. truthy (entity x)) ` set (ch # chs)}"
    unfolding k2 k1 s by (simp only: Un_assoc)
  moreover have "distinct (map fst ents) \<longrightarrow> distinct (map fst ents')"
    using d1 d2 by blast
  moreover have "(\<forall>p \<in> set ents. map_of (entityMap c) (fst p) = Some (snd p)) \<longrightarrow>
          (\<forall>p \<in> set ents'. map_of (entityMap c) (fst p) = Some (snd p))"
    using m1 m2 by blast
  ultimately show ?case by (intro conjI)
qed

lemma collectChars_total:
  assumes "\<forall>ch \<in> set chs. charResolves (entityMap c) ch"
  shows "\<exists>ents'. foldE (collectChar c) chs ents = Inr ents'"
  using assms
proof (induction chs arbitrary: ents)
  case Nil
  then show ?case by simp
next
  case (Cons ch chs)
  then obtain e1 where "collectChar c ch ents = Inr e1"
    by (cases "truthy (entity ch)") (auto simp: collectChar_def getEntity_def charResolves_def)
  with Cons show ?case by (auto simp: foldE_Inr_Cons)
qed

lemma collectBlocks_Inr:
  assumes "foldE (\<lambda>p entities. foldE (collectChar c) (rangeEnds (characterList (snd p))) entities)
             bm ents = Inr ents'"
  shows "fst ` set ents' =
           fst ` set ents \<union> {k. \<exists>p \<in> set bm. Some k \<in> (\<lambda>x. truthy (entity x)) ` set (characterList (snd p))} \<and>
         (distinct (map fst ents) \<longrightarrow> distinct (map fst ents')) \<and>
         ((\<forall>p \<in> set ents. map_of (entityMap c) (fst p) = Some (snd p)) \<longrightarrow>
          (\<forall>p \<in> set ents'. map_of (entityMap c) (fst p) = Some (snd p)))"
  using assms
proof (induction bm arbitrary: ents)
  case Nil
  then show ?case by simp
next
  case (Cons b bm)
  from Cons.prems obtain e1 where
    c1: "foldE (collectChar c) (rangeEnds (characterList (snd b))) ents = Inr e1"
    and r: "foldE (\<lambda>p entities. foldE (collectChar c) (rangeEnds (characterList (snd p))) entities)
              bm e1 = Inr ents'"
    unfolding foldE_Inr_Cons by blast
  from collectChars_Inr [OF c1]
  have k1: "fst ` set e1 = fst ` set ents \<union> {k. Some k \<in> (\<lambda>x. truthy (entity x)) ` set (characterList (snd b))}"
    and d1: "distinct (map fst ents) \<longrightarrow> distinct (map fst e1)"
    and m1: "(\<forall>p \<in> set ents. map_of (entityMap c) (fst p) = Some (snd p)) \<longrightarrow>
             (\<forall>p \<in> set e1. map_of (entityMap c) (fst p) = Some (snd p))"
    by (simp_all add: rangeEnds_entities)
  from Cons.IH [OF r]
  have k2: "fst ` set ents' =
              fst ` set e1 \<union> {k. \<exists>p \<in> set bm. Some k \<in> (\<lambda>x. truthy (entity x)) ` set (characterList (snd p))}"
    and d2: "distinct (map fst e1) \<longrightarrow> distinct (map fst ents')"
    and m2: "(\<forall>p \<in> set e1. map_of (entityMap c) (fst p) = Some (snd p)) \<longrightarrow>
             (\<forall>p \<in> set ents'. map_of (entityMap c) (fst p) = Some (snd p))"
    by blast+
  have "fst ` set ents' =
          fst ` set ents \<union> {k. \<exists>p \<in> set (b # bm). Some k \<in> (\<lambda>x. truthy (entity x)) ` set (characterList (snd p))}"
    unfolding k2 k1 by auto
  with d1 d2 m1 m2 show ?case by blast
qed

lemma collectBlocks_total:
  assumes "\<forall>p \<in> set bm. blockResolves (entityMap c) (snd p)"
  shows "\<exists>ents'. foldE (\<lambda>p entities. foldE (collectChar c) (rangeEnds (characterList (snd p))) entities)
             bm ents = Inr ents'"
  using assms
proof (induction bm arbitrary: ents)
  case Nil
  then show ?case by simp
next
  case (Cons b bm)
  have "\<forall>ch \<in> set (rangeEnds (characterList (snd b))). charResolves (entityMap c) ch"
  proof
    fix ch assume "ch \<in> set (rangeEnds (characterList (snd b)))"
    then have "entity ch \<in> entity ` set (characterList (snd b))"
      using rangeEnds_entity by blast
    then obtain ch' where "ch' \<in> set (characterList (snd b))" "entity ch' = entity ch" by auto
    with Cons.prems show "charResolves (entityMap c) ch"
      by (auto simp: blockResolves_def list_all_iff charResolves_def)
  qed
  from collectChars_total [OF this] obtain e1 where
    "foldE (collectChar c) (rangeEnds (characterList (snd b))) ents = Inr e1" by blast
  with Cons show ?case by (auto simp: foldE_Inr_Cons)
qed

lemma collectEntities_Inr:
  assumes "collectEntities c = Inr ents"
  shows "fst ` set ents =
           {k. \<exists>p \<in> set (blockMap c). Some k \<in> (\<lambda>x. truthy (entity x)) ` set (characterList (snd p))}"
    and "distinct (map fst ents)"
    and "\<forall>p \<in> set ents. map_of (entityMap c) (fst p) = Some (snd p)"
  using collectBlocks_Inr [OF assms [unfolded collectEntities_def]] by simp_all

lemma set_objectKeys: "set (objectKeys obj) = set obj"
  by (auto simp: objectKeys_def)

lemma distinct_objectKeys:
  assumes "distinct (map fst obj)"
  shows "distinct (map fst (objectKeys obj))"
proof -
  from assms have d: "distinct obj" and i: "inj_on fst (set obj)"
    by (simp_all add: distinct_map)
  have "distinct (objectKeys obj)"
    using d by (auto simp: objectKeys_def)
  with i show ?thesis by (simp add: distinct_map set_objectKeys)
qed

lemma objectKeys_collected:
  assumes "collectEntities c = Inr ents"
  shows "fst ` set (objectKeys ents) =
           {k. \<exists>p \<in> set (blockMap c). Some k \<in> (\<lambda>x. truthy (entity x)) ` set (characterList (snd p))}"
    and "distinct (map fst (objectKeys ents))"
    and "\<forall>p \<in> set (objectKeys ents). map_of (entityMap c) (fst p) = Some (snd p)"
  using collectEntities_Inr [OF assms]
  by (simp_all add: set_objectKeys distinct_objectKeys)

lemma collectEntities_total:
  "entitiesResolve c \<Longrightarrow> \<exists>ents. collectEntities c = Inr ents"
  unfolding collectEntities_def
  by (rule collectBlocks_total) (simp add: entitiesResolve_def list_all_iff)

text \<open>What \<open>whitelist.reduce\<close> builds.\<close>

lemma map_of_objectKeys:
  assumes "distinct (map fst obj)"
  shows "map_of (objectKeys obj) = map_of obj"
  using assms by (simp add: map_of_inject_set distinct_objectKeys set_objectKeys)

lemma copyAttribute_plain:
  "map_of dat ''hasOwnProperty'' = None \<Longrightarrow>
   copyAttribute dat attr attrs =
     Inr (case map_of dat attr of Some v \<Rightarrow> om_set attr v attrs | None \<Rightarrow> attrs)"
  by (simp add: copyAttribute_def hasOwnProperty_def split: option.splits)

lemma copyAttribute_shadowed:
  "map_of dat ''hasOwnProperty'' = Some v \<Longrightarrow> copyAttribute dat attr attrs = Inl TypeError"
  by (simp add: copyAttribute_def hasOwnProperty_def)

lemma copyAttributes_plain:
  "map_of dat ''hasOwnProperty'' = None \<Longrightarrow>
   foldE (copyAttribute dat) attrList acc =
     Inr (fold (\<lambda>attr attrs. case map_of dat attr of
                                 Some v \<Rightarrow> om_set attr v attrs
                               | None \<Rightarrow> attrs) attrList acc)"
  by (induction attrList arbitrary: acc) (simp_all add: copyAttribute_plain)

lemma copied_map_of:
  "map_of (fold (\<lambda>attr attrs. case map_of dat attr of
                                   Some v \<Rightarrow> om_set attr v attrs
                                 | None \<Rightarrow> attrs) attrList acc) a =
   (if a \<in> set attrList \<and> map_of dat a \<noteq> None then map_of dat a else map_of acc a)"
  by (induction attrList arbitrary: acc) (auto simp: map_of_om_set split: option.splits)

lemma copied_distinct:
  "distinct (map fst acc) \<Longrightarrow>
   distinct (map fst (fold (\<lambda>attr attrs. case map_of dat attr of
                                   Some v \<Rightarrow> om_set attr v attrs
                                 | None \<Rightarrow> attrs) attrList acc))"
  by (induction attrList arbitrary: acc) (auto simp: distinct_om_set split: option.splits)

lemma newData_plain:
  assumes "map_of dat ''hasOwnProperty'' = None"
  shows "\<exists>d. newData attrList dat = Inr d \<and>
             (\<forall>a. map_of d a = (if a \<in> set attrList then map_of dat a else None))"
proof -
  let ?acc = "fold (\<lambda>attr attrs. case map_of dat attr of
                                 Some v \<Rightarrow> om_set attr v attrs
                               | None \<Rightarrow> attrs) attrList []"
  have r: "newData attrList dat = Inr (objectKeys ?acc)"
    by (simp add: newData_def copyAttributes_plain [OF assms])
  have "distinct (map fst ?acc)" by (rule copied_distinct) simp
  then have "map_of (objectKeys ?acc) = map_of ?acc" by (rule map_of_objectKeys)
  then have "\<forall>a. map_of (objectKeys ?acc) a = (if a \<in> set attrList then map_of dat a else None)"
    by (auto simp: copied_map_of)
  with r show ?thesis by blast
qed

lemma newData_Nil: "newData [] dat = Inr []"
  by (simp add: newData_def objectKeys_def)

lemma newData_shadowed:
  assumes "map_of dat ''hasOwnProperty'' = Some v" and "attrList \<noteq> []"
  shows "newData attrList dat = Inl TypeError"
proof -
  from assms(2) obtain x xs where "attrList = x # xs" by (cases attrList) auto
  with copyAttribute_shadowed [OF assms(1)] show ?thesis
    by (simp add: newData_def)
qed


lemma newData_Inl: "newData attrList dat = Inl e \<Longrightarrow> e = TypeError"
proof (cases "map_of dat ''hasOwnProperty''")
  case None
  assume "newData attrList dat = Inl e"
  with newData_plain [OF None, of attrList] show ?thesis by auto
next
  case (Some v)
  assume a: "newData attrList dat = Inl e"
  show ?thesis
  proof (cases "attrList = []")
    case True
    with a show ?thesis by (simp add: newData_Nil)
  next
    case False
    from newData_shadowed [OF Some False] a show ?thesis by simp
  qed
qed

lemma newData_total:
  assumes "attrList = [] \<or> map_of dat ''hasOwnProperty'' = None"
  shows "\<exists>d. newData attrList dat = Inr d"
  using assms newData_plain [of dat attrList] by (auto simp: newData_Nil)

text \<open>The second loop of \<open>filterEntityAttributes\<close>.\<close>

lemma filterOneEntity_Inr:
  assumes "filterOneEntity cfg p c = Inr c'"
  shows "\<exists>t inst d. find (\<lambda>t. cfgType t = entityType (snd p)) cfg = Some t \<and>
           newData (attributes t) (entityData (snd p)) = Inr d \<and>
           map_of (entityMap c) (fst p) = Some inst \<and>
           c' = c\<lparr>entityMap := om_set (fst p) (inst\<lparr>entityData := d\<rparr>) (entityMap c)\<rparr>"
  using assms
  by (auto simp: filterOneEntity_def replaceEntityData_def getEntity_def bindE_eq_Inr
      split: option.splits)

lemma filterOneEntity_Inl:
  "find (\<lambda>t. cfgType t = entityType (snd p)) cfg = None \<Longrightarrow> filterOneEntity cfg p c = Inl TypeError"
  by (simp add: filterOneEntity_def)

lemma filterOneEntity_step:
  assumes "find (\<lambda>t. cfgType t = entityType (snd p)) cfg = Some t"
    and "newData (attributes t) (entityData (snd p)) = Inr d"
    and "map_of (entityMap c) (fst p) = Some inst"
  shows "filterOneEntity cfg p c =
           Inr (c\<lparr>entityMap := om_set (fst p) (inst\<lparr>entityData := d\<rparr>) (entityMap c)\<rparr>)"
  using assms by (simp add: filterOneEntity_def replaceEntityData_def getEntity_def)

lemma filterOneEntity_error:
  assumes "filterOneEntity cfg p c = Inl e" and "fst p \<in> fst ` set (entityMap c)"
  shows "e = TypeError"
proof (cases "find (\<lambda>t. cfgType t = entityType (snd p)) cfg")
  case None
  with assms(1) show ?thesis by (simp add: filterOneEntity_def)
next
  case (Some t)
  from assms(2) obtain inst where i: "map_of (entityMap c) (fst p) = Some inst"
    by (metis domD dom_map_of_conv_image_fst)
  show ?thesis
  proof (cases "newData (attributes t) (entityData (snd p))")
    case (Inl e')
    with newData_Inl have "e' = TypeError" by blast
    with Inl Some assms(1) show ?thesis by (simp add: filterOneEntity_def)
  next
    case (Inr d)
    from filterOneEntity_step [OF Some Inr i] assms(1) show ?thesis by simp
  qed
qed


lemma filterEntities_total:
  assumes "\<forall>p \<in> set ents. fst p \<in> fst ` set (entityMap c) \<and>
             (\<exists>t. find (\<lambda>t. cfgType t = entityType (snd p)) cfg = Some t \<and>
                  (attributes t = [] \<or> map_of (entityData (snd p)) ''hasOwnProperty'' = None))"
  shows "\<exists>c'. foldE (filterOneEntity cfg) ents c = Inr c'"
  using assms
proof (induction ents arbitrary: c)
  case Nil
  then show ?case by simp
next
  case (Cons p ps)
  then obtain t where t: "find (\<lambda>t. cfgType t = entityType (snd p)) cfg = Some t"
    and ok: "attributes t = [] \<or> map_of (entityData (snd p)) ''hasOwnProperty'' = None"
    by auto
  from newData_total [OF ok] obtain d where d: "newData (attributes t) (entityData (snd p)) = Inr d"
    by blast
  from Cons.prems have "fst p \<in> fst ` set (entityMap c)" by simp
  then obtain inst where i: "map_of (entityMap c) (fst p) = Some inst"
    by (metis domD dom_map_of_conv_image_fst)
  let ?c1 = "c\<lparr>entityMap := om_set (fst p) (inst\<lparr>entityData := d\<rparr>) (entityMap c)\<rparr>"
  have c1: "filterOneEntity cfg p c = Inr ?c1" by (rule filterOneEntity_step [OF t d i])
  have "fst ` set (entityMap ?c1) = insert (fst p) (fst ` set (entityMap c))"
    by (simp add: keys_om_set)
  with Cons.prems have "\<forall>q \<in> set ps. fst q \<in> fst ` set (entityMap ?c1) \<and>
             (\<exists>t. find (\<lambda>t. cfgType t = entityType (snd q)) cfg = Some t \<and>
                  (attributes t = [] \<or> map_of (entityData (snd q)) ''hasOwnProperty'' = None))"
    by auto
  from Cons.IH [OF this] c1 show ?case by (auto simp: foldE_Inr_Cons)
qed

text \<open>
  An entity without an entry, or one whose data shadows \<open>hasOwnProperty\<close> while its entry
  lists an attribute, ends the loop in a \<open>TypeError\<close>.
\<close>

lemma filterEntities_fails:
  assumes "p \<in> set ents"
    and "filterOneEntity cfg p = (\<lambda>c. Inl TypeError)"
    and "\<forall>q \<in> set ents. fst q \<in> fst ` set (entityMap c)"
  shows "foldE (filterOneEntity cfg) ents c = Inl TypeError"
  using assms
proof (induction ents arbitrary: c)
  case Nil
  then show ?case by simp
next
  case (Cons q qs)
  from Cons.prems(3) have kq: "fst q \<in> fst ` set (entityMap c)" by simp
  show ?case
  proof (cases "filterOneEntity cfg q c")
    case (Inl e)
    from filterOneEntity_error [OF Inl kq] Inl show ?thesis by simp
  next
    case (Inr c1)
    with Cons.prems(2) have "q \<noteq> p" by auto
    with Cons.prems(1) have pq: "p \<in> set qs" by auto
    from filterOneEntity_Inr [OF Inr] obtain x where
      "c1 = c\<lparr>entityMap := om_set (fst q) x (entityMap c)\<rparr>" by blast
    then have "fst ` set (entityMap c1) = insert (fst q) (fst ` set (entityMap c))"
      by (simp add: keys_om_set)
    with Cons.prems(3) have "\<forall>r \<in> set qs. fst r \<in> fst ` set (entityMap c1)" by auto
    from Cons.IH [OF pq Cons.prems(2) this] Inr show ?thesis by simp
  qed
qed

lemma filterOneEntity_no_entry:
  "find (\<lambda>t. cfgType t = entityType (snd p)) cfg = None \<Longrightarrow>
   filterOneEntity cfg p = (\<lambda>c. Inl TypeError)"
  by (simp add: filterOneEntity_def fun_eq_iff)

lemma filterOneEntity_shadowed:
  "find (\<lambda>t. cfgType t = entityType (snd p)) cfg = Some t \<Longrightarrow> attributes t \<noteq> [] \<Longrightarrow>
   map_of (entityData (snd p)) ''hasOwnProperty'' = Some v \<Longrightarrow>
   filterOneEntity cfg p = (\<lambda>c. Inl TypeError)"
  by (simp add: filterOneEntity_def fun_eq_iff newData_shadowed)

lemma map_of_Some_key: "map_of m k = Some v \<Longrightarrow> k \<in> fst ` set m"
  by (metis domI dom_map_of_conv_image_fst)





text \<open>
  When the pass returns and when it throws.  A referenced entity with no entry for its
  type ends the pass in an exception, a \<open>TypeError\<close> when all references resolve.  The
  pass returns when every referenced entity resolves, has an entry for its type, and
  either the entry lists no attribute or the data owns no property \<open>hasOwnProperty\<close>.
\<close>

lemma filterEntityAttributes_outcomes:
  "((\<exists>p \<in> set (blockMap (currentContent es)). \<exists>ch \<in> set (characterList (snd p)). \<exists>k e.
        truthy (entity ch) = Some k \<and> map_of (entityMap (currentContent es)) k = Some e \<and>
        find (\<lambda>t. cfgType t = entityType e) cfg = None) \<longrightarrow>
    (\<exists>err. filterEntityAttributes es cfg = Inl err) \<and>
    (entitiesResolve (currentContent es) \<longrightarrow> filterEntityAttributes es cfg = Inl TypeError)) \<and>
   ((\<forall>p \<in> set (blockMap (currentContent es)). \<forall>ch \<in> set (characterList (snd p)). \<forall>k.
        truthy (entity ch) = Some k \<longrightarrow>
        (\<exists>e t. map_of (entityMap (currentContent es)) k = Some e \<and>
             find (\<lambda>t. cfgType t = entityType e) cfg = Some t \<and>
             (attributes t = [] \<or> map_of (entityData e) ''hasOwnProperty'' = None))) \<longrightarrow>
    (\<exists>es'. filterEntityAttributes es cfg = Inr es'))"
proof (intro conjI impI)
  let ?c = "currentContent es"
  assume "\<exists>p \<in> set (blockMap ?c). \<exists>ch \<in> set (characterList (snd p)). \<exists>k e.
        truthy (entity ch) = Some k \<and> map_of (entityMap ?c) k = Some e \<and>
        find (\<lambda>t. cfgType t = entityType e) cfg = None"
  then obtain p ch k e where p: "p \<in> set (blockMap ?c)" and ch: "ch \<in> set (characterList (snd p))"
    and k: "truthy (entity ch) = Some k" and e: "map_of (entityMap ?c) k = Some e"
    and n: "find (\<lambda>t. cfgType t = entityType e) cfg = None"
    by blast
  have step: "filterEntityAttributes es cfg = Inl TypeError" if ce: "collectEntities ?c = Inr ents" for ents
  proof -
    note k_ents = objectKeys_collected(1) [OF ce] and m_ents = objectKeys_collected(3) [OF ce]
    from p ch k have "Some k \<in> (\<lambda>x. truthy (entity x)) ` set (characterList (snd p))" by (metis image_eqI)
    with p have "k \<in> fst ` set (objectKeys ents)" unfolding k_ents by blast
    then obtain q where q: "q \<in> set (objectKeys ents)" and fq: "fst q = k" by auto
    with m_ents e have "snd q = e" by auto
    with n have nq: "find (\<lambda>t. cfgType t = entityType (snd q)) cfg = None" by simp
    from m_ents have "\<forall>q \<in> set (objectKeys ents). fst q \<in> fst ` set (entityMap ?c)"
      by (auto dest: map_of_Some_key)
    from filterEntities_fails [OF q filterOneEntity_no_entry [OF nq] this] ce show ?thesis
      by (simp add: filterEntityAttributes_def)
  qed
  show "\<exists>err. filterEntityAttributes es cfg = Inl err"
  proof (cases "collectEntities ?c")
    case (Inl err)
    then show ?thesis by (simp add: filterEntityAttributes_def)
  next
    case (Inr ents)
    from step [OF this] show ?thesis by blast
  qed
  show "filterEntityAttributes es cfg = Inl TypeError" if "entitiesResolve ?c"
  proof -
    from collectEntities_total [OF that] obtain ents where "collectEntities ?c = Inr ents" by blast
    then show ?thesis by (rule step)
  qed
next
  let ?c = "currentContent es"
  assume a: "\<forall>p \<in> set (blockMap ?c). \<forall>ch \<in> set (characterList (snd p)). \<forall>k.
        truthy (entity ch) = Some k \<longrightarrow>
        (\<exists>e t. map_of (entityMap ?c) k = Some e \<and>
             find (\<lambda>t. cfgType t = entityType e) cfg = Some t \<and>
             (attributes t = [] \<or> map_of (entityData e) ''hasOwnProperty'' = None))"
  then have "entitiesResolve ?c"
    by (force simp: entitiesResolve_def blockResolves_def charResolves_def list_all_iff
        split: option.splits)
  from collectEntities_total [OF this] obtain ents where ce: "collectEntities ?c = Inr ents" by blast
  note k_ents = objectKeys_collected(1) [OF ce] and m_ents = objectKeys_collected(3) [OF ce]
  have "\<forall>q \<in> set (objectKeys ents). fst q \<in> fst ` set (entityMap ?c) \<and>
             (\<exists>t. find (\<lambda>t. cfgType t = entityType (snd q)) cfg = Some t \<and>
                  (attributes t = [] \<or> map_of (entityData (snd q)) ''hasOwnProperty'' = None))"
  proof
    fix q assume q: "q \<in> set (objectKeys ents)"
    then have "fst q \<in> fst ` set (objectKeys ents)" by simp
    then obtain p ch where "p \<in> set (blockMap ?c)" "ch \<in> set (characterList (snd p))"
      "truthy (entity ch) = Some (fst q)"
      unfolding k_ents by force
    with a obtain e t where "map_of (entityMap ?c) (fst q) = Some e"
      "find (\<lambda>t. cfgType t = entityType e) cfg = Some t"
      "attributes t = [] \<or> map_of (entityData e) ''hasOwnProperty'' = None" by blast
    with m_ents q show "fst q \<in> fst ` set (entityMap ?c) \<and>
             (\<exists>t. find (\<lambda>t. cfgType t = entityType (snd q)) cfg = Some t \<and>
                  (attributes t = [] \<or> map_of (entityData (snd q)) ''hasOwnProperty'' = None))"
      by (auto dest: map_of_Some_key)
  qed
  from filterEntities_total [OF this] ce show "\<exists>es'. filterEntityAttributes es cfg = Inr es'"
    by (auto simp: filterEntityAttributes_def Let_def)
qed

text \<open>
  Claim C7 fails on the code in its second half.  The link of \<open>exH_state\<close> resolves and
  its type has an entry in \<open>exF_config\<close>, but its data owns a property named
  \<open>hasOwnProperty\<close>: \<open>data.hasOwnProperty(attr)\<close> calls that string, and the pass ends in
  a \<open>TypeError\<close> where the claim has it return.
\<close>

theorem filterEntityAttributes_shadowed_failing:
  "entitiesResolve (currentContent exH_state) \<and>
   map_of (entityMap (currentContent exH_state)) ''1'' =
     Some \<lparr>entityType = ''LINK'',
           entityData = [(''url'', ''http://x''), (''hasOwnProperty'', ''x'')]\<rparr> \<and>
   find (\<lambda>t. cfgType t = ''LINK'') exF_config =
     Some \<lparr>cfgType = ''LINK'', attributes = [''url''], whitelist = []\<rparr> \<and>
   filterEntityAttributes exH_state exF_config = Inl TypeError"
  by code_simp

end
